theory Spec2Isabelle
  imports Main "HOL-Library.List_Lexorder"
begin

section \<open>Python values used by the corpus builder\<close>

text \<open>
  The program is \<^verbatim>\<open>opentdf_corpus_builder.py\<close>. A Python \<^verbatim>\<open>str\<close> is a sequence of
  Unicode code points and \<^verbatim>\<open>len\<close> counts code points, so a string is modelled as a list
  of code points (natural numbers); \<open>py\<close> turns an ASCII literal into such a list.
  Python integers are unbounded: the chunking parameters are \<open>int\<close>.
\<close>

type_synonym pystr = "nat list"

definition py :: "string \<Rightarrow> pystr" where
  "py s = map of_char s"

definition NL :: nat where "NL = 10"
definition CR :: nat where "CR = 13"
definition TAB :: nat where "TAB = 9"
definition SP :: nat where "SP = 32"

text \<open>The exceptions of the program that a claim depends on.\<close>

datatype py_error =
    ValueError
  | TypeError
  | HttpError int
  | NetworkError
  | OtherError
  | RetryError py_error

text \<open>
  \<^verbatim>\<open>str.isspace\<close> for one code point: the white space that \<^verbatim>\<open>str.strip()\<close> removes.
\<close>

definition is_space :: "nat \<Rightarrow> bool" where
  "is_space c \<longleftrightarrow>
     (9 \<le> c \<and> c \<le> 13) \<or> (28 \<le> c \<and> c \<le> 32) \<or> c = 133 \<or> c = 160 \<or> c = 5760 \<or>
     (8192 \<le> c \<and> c \<le> 8202) \<or> c = 8232 \<or> c = 8233 \<or> c = 8239 \<or> c = 8287 \<or> c = 12288"

definition strip :: "pystr \<Rightarrow> pystr" where
  "strip s = rev (dropWhile is_space (rev (dropWhile is_space s)))"

text \<open>\<^verbatim>\<open>sep.join(xs)\<close>.\<close>

fun join :: "pystr \<Rightarrow> pystr list \<Rightarrow> pystr" where
  "join sep [] = []"
| "join sep [x] = x"
| "join sep (x # y # ys) = x @ sep @ join sep (y # ys)"

text \<open>
  \<^verbatim>\<open>p[i:j]\<close> with Python's clamping of the two bounds, and \<^verbatim>\<open>range(0, stop, step)\<close>,
  which raises \<^verbatim>\<open>ValueError\<close> for a zero step.
\<close>

definition slice_bound :: "int \<Rightarrow> int \<Rightarrow> int" where
  "slice_bound n k = (if k < 0 then max 0 (k + n) else min k n)"

definition py_slice :: "'a list \<Rightarrow> int \<Rightarrow> int \<Rightarrow> 'a list" where
  "py_slice p i j =
     (let n = int (length p); a = slice_bound n i; b = slice_bound n j
      in take (nat (b - a)) (drop (nat a) p))"

definition py_range0 :: "int \<Rightarrow> int \<Rightarrow> py_error + int list" where
  "py_range0 stop step =
     (if step = 0 then Inl ValueError
      else if 0 < step \<and> 0 < stop then
        Inr (map (\<lambda>k. int k * step) [0 ..< nat ((stop - 1) div step + 1)])
      else if step < 0 \<and> stop < 0 then
        Inr (map (\<lambda>k. int k * step) [0 ..< nat ((- stop - 1) div (- step) + 1)])
      else Inr [])"

section \<open>Chunking\<close>

text \<open>
  \<^verbatim>\<open>re.split(r'\n{2,}', s)\<close>: the fields between the maximal runs of two or more
  newlines. The result is never empty; its \<open>[]\<close> case is there for totality only.
\<close>

function re_split_nl2 :: "pystr \<Rightarrow> pystr list" where
  "re_split_nl2 [] = [[]]"
| "re_split_nl2 (c # cs) =
     (if c = NL \<and> cs \<noteq> [] \<and> hd cs = NL
      then [] # re_split_nl2 (dropWhile (\<lambda>x. x = NL) cs)
      else (case re_split_nl2 cs of
              [] \<Rightarrow> [[c]]
            | p # ps \<Rightarrow> (c # p) # ps))"
  by pat_completeness auto
termination
  by (relation "measure length") (auto simp: length_dropWhile_le less_Suc_eq_le)

text \<open>
  The brutal split of one paragraph:
  \<^verbatim>\<open>for i in range(0, len(p), hard_max): chunks.append(p[i:i+hard_max])\<close>.
\<close>

definition brutal_split :: "pystr \<Rightarrow> int \<Rightarrow> py_error + pystr list" where
  "brutal_split p hard_max =
     (case py_range0 (int (length p)) hard_max of
        Inl e \<Rightarrow> Inl e
      | Inr is \<Rightarrow> Inr (map (\<lambda>i. py_slice p i (i + hard_max)) is))"

text \<open>
  What the \<^verbatim>\<open>else\<close> branch of the paragraph loop does with the buffer it is about to
  replace: the joined buffer becomes a chunk when it has \<open>min_chars\<close> characters or no
  chunk exists yet; otherwise the source executes \<^verbatim>\<open>pass\<close> and the buffer is overwritten.
\<close>

definition flush_buf :: "int \<Rightarrow> pystr list \<Rightarrow> pystr list \<Rightarrow> pystr list" where
  "flush_buf min_chars chunks buf =
     (if buf \<noteq> [] then
        (let chunk = strip (join [NL, NL] buf)
         in if int (length chunk) \<ge> min_chars \<or> chunks = [] then chunks @ [chunk] else chunks)
      else chunks)"

text \<open>The loop \<^verbatim>\<open>for p in paras\<close> over the state \<open>(chunks, buf, cur)\<close>.\<close>

fun chunk_loop ::
  "int \<Rightarrow> int \<Rightarrow> int \<Rightarrow> pystr list \<Rightarrow> pystr list \<times> pystr list \<times> int
     \<Rightarrow> py_error + (pystr list \<times> pystr list \<times> int)" where
  "chunk_loop target_chars hard_max min_chars [] st = Inr st"
| "chunk_loop target_chars hard_max min_chars (p # ps) (chunks, buf, cur) =
     (if cur + int (length p) + 2 \<le> target_chars then
        chunk_loop target_chars hard_max min_chars ps
          (chunks, buf @ [p], cur + int (length p) + 2)
      else
        (let chunks1 = flush_buf min_chars chunks buf;
             cur1 = int (length p)
         in if cur1 > hard_max then
              (case brutal_split p hard_max of
                 Inl e \<Rightarrow> Inl e
               | Inr pieces \<Rightarrow>
                   chunk_loop target_chars hard_max min_chars ps (chunks1 @ pieces, [], 0))
            else chunk_loop target_chars hard_max min_chars ps (chunks1, [p], cur1)))"

definition split_into_chunks :: "pystr \<Rightarrow> int \<Rightarrow> int \<Rightarrow> int \<Rightarrow> py_error + pystr list" where
  "split_into_chunks text target_chars hard_max min_chars =
     (if int (length text) \<le> hard_max then Inr [text]
      else
        (case chunk_loop target_chars hard_max min_chars (re_split_nl2 (strip text)) ([], [], 0) of
           Inl e \<Rightarrow> Inl e
         | Inr (chunks, buf, cur) \<Rightarrow>
             Inr (if buf \<noteq> [] then chunks @ [strip (join [NL, NL] buf)] else chunks)))"

text \<open>
  The invariant of the paragraph loop used below: an empty buffer has \<open>cur = 0\<close>, and
  otherwise \<open>cur\<close> bounds the joined buffer and stays within \<open>h\<close>.
\<close>

definition buf_ok :: "int \<Rightarrow> pystr list \<Rightarrow> int \<Rightarrow> bool" where
  "buf_ok h buf cur \<longleftrightarrow> (buf = [] \<and> cur = 0) \<or> (int (length (join [NL, NL] buf)) \<le> cur \<and> cur \<le> h)"

section \<open>Text normalization\<close>

text \<open>
  \<^verbatim>\<open>re.sub(pattern, repl, s)\<close> replaces the leftmost, longest matches from left to right.
  \<open>sub_crlf\<close> is \<^verbatim>\<open>re.sub(r'\r\n?', '\n', s)\<close>, \<open>collapse_blanks\<close> is
  \<^verbatim>\<open>re.sub(r'[ \t]+', ' ', s)\<close> and \<open>collapse_newlines\<close> is
  \<^verbatim>\<open>re.sub(r'\n{3,}', '\n\n', s)\<close>.
\<close>

fun sub_crlf :: "pystr \<Rightarrow> pystr" where
  "sub_crlf [] = []"
| "sub_crlf [c] = (if c = CR then [NL] else [c])"
| "sub_crlf (c # d # ds) =
     (if c = CR then (if d = NL then NL # sub_crlf ds else NL # sub_crlf (d # ds))
      else c # sub_crlf (d # ds))"

definition is_blank :: "nat \<Rightarrow> bool" where
  "is_blank c \<longleftrightarrow> c = SP \<or> c = TAB"

function collapse_blanks :: "pystr \<Rightarrow> pystr" where
  "collapse_blanks [] = []"
| "collapse_blanks (c # cs) =
     (if is_blank c then SP # collapse_blanks (dropWhile is_blank cs)
      else c # collapse_blanks cs)"
  by pat_completeness auto
termination
  by (relation "measure length") (auto simp: length_dropWhile_le less_Suc_eq_le)

function collapse_newlines :: "pystr \<Rightarrow> pystr" where
  "collapse_newlines [] = []"
| "collapse_newlines (c # cs) =
     (if c = NL then
        (let run = takeWhile (\<lambda>x. x = NL) cs; rest = dropWhile (\<lambda>x. x = NL) cs
         in (if length run \<ge> 2 then [NL, NL] else NL # run) @ collapse_newlines rest)
      else c # collapse_newlines cs)"
  by pat_completeness auto
termination
  by (relation "measure length") (auto simp: length_dropWhile_le less_Suc_eq_le)

definition clean_text :: "pystr \<Rightarrow> pystr" where
  "clean_text s = strip (collapse_newlines (collapse_blanks (sub_crlf s)))"

text \<open>
  Normal forms used in the proof of idempotence: every blank is a single space followed by
  no blank, and no newline is followed by two more.
\<close>

fun blank_ok :: "pystr \<Rightarrow> bool" where
  "blank_ok [] = True"
| "blank_ok (c # cs) =
     ((is_blank c \<longrightarrow> c = SP \<and> (cs = [] \<or> \<not> is_blank (hd cs))) \<and> blank_ok cs)"

fun nl_ok :: "pystr \<Rightarrow> bool" where
  "nl_ok [] = True"
| "nl_ok (c # cs) = ((c = NL \<longrightarrow> length (takeWhile (\<lambda>x. x = NL) cs) < 2) \<and> nl_ok cs)"

section \<open>HTTP with retries\<close>

text \<open>
  One call of \<^verbatim>\<open>requests.get\<close> either returns a response (here its status code), or
  raises: a network-level failure (connection error, timeout) or another error of the
  library, such as the one for a malformed URL. Neither exception is an \<^verbatim>\<open>HttpError\<close>,
  which is a subclass of \<^verbatim>\<open>RuntimeError\<close> declared by the program.
\<close>

datatype outcome = Response int | NetworkFailure | MalformedURL

text \<open>The body of \<^verbatim>\<open>http_get\<close>: one attempt.\<close>

definition http_get_attempt :: "outcome \<Rightarrow> py_error + int" where
  "http_get_attempt out =
     (case out of
        Response status_code \<Rightarrow>
          if status_code \<ge> 400 then Inl (HttpError status_code) else Inr status_code
      | NetworkFailure \<Rightarrow> Inl NetworkError
      | MalformedURL \<Rightarrow> Inl OtherError)"

text \<open>
  The decorator \<^verbatim>\<open>@retry(stop=stop_after_attempt(5),
  wait=wait_exponential(multiplier=1, min=1, max=10),
  retry=retry_if_exception_type(HttpError))\<close> of the tenacity library: after a failed
  attempt the retry predicate is asked first; a retryable failure ends in
  \<^verbatim>\<open>RetryError\<close> when the stop condition holds, and otherwise the call sleeps and tries
  again. The wait after attempt \<open>n\<close> is \<open>multiplier * 2 ^ (n - 1)\<close> clamped to
  \<open>[min, max]\<close>.
\<close>

definition stop_after_attempt :: "nat \<Rightarrow> nat \<Rightarrow> bool" where
  "stop_after_attempt max_attempt_number attempt_number \<longleftrightarrow> attempt_number \<ge> max_attempt_number"

definition wait_exponential :: "int \<Rightarrow> int \<Rightarrow> int \<Rightarrow> nat \<Rightarrow> int" where
  "wait_exponential multiplier wmin wmax attempt_number =
     max (max 0 wmin) (min (multiplier * 2 ^ (attempt_number - 1)) wmax)"

fun retry_if_http_error :: "py_error \<Rightarrow> bool" where
  "retry_if_http_error (HttpError s) = True"
| "retry_if_http_error e = False"

text \<open>
  The decorated function. \<open>transport n\<close> is what the \<open>n\<close>-th call of \<^verbatim>\<open>requests.get\<close>
  for this URL does (attempts are numbered from 1); the result comes with the list of the
  sleeps made between attempts.
\<close>

function http_get_from ::
  "(nat \<Rightarrow> outcome) \<Rightarrow> nat \<Rightarrow> int list \<Rightarrow> (py_error + int) \<times> int list" where
  "http_get_from transport attempt_number sleeps =
     (case http_get_attempt (transport attempt_number) of
        Inr r \<Rightarrow> (Inr r, sleeps)
      | Inl e \<Rightarrow>
          if retry_if_http_error e then
            if stop_after_attempt 5 attempt_number then (Inl (RetryError e), sleeps)
            else http_get_from transport (Suc attempt_number)
                   (sleeps @ [wait_exponential 1 1 10 attempt_number])
          else (Inl e, sleeps))"
  by pat_completeness auto
termination
  by (relation "measure (\<lambda>(transport, attempt_number, sleeps). 5 - attempt_number)")
     (auto simp: stop_after_attempt_def)

definition http_get :: "(nat \<Rightarrow> outcome) \<Rightarrow> (py_error + int) \<times> int list" where
  "http_get transport = http_get_from transport 1 []"

definition attempts_made :: "(nat \<Rightarrow> outcome) \<Rightarrow> nat" where
  "attempts_made transport = Suc (length (snd (http_get transport)))"

text \<open>The failure that the program turns into \<^verbatim>\<open>HttpError\<close>: a response with status 400 or more.\<close>

definition http_failure :: "outcome \<Rightarrow> bool" where
  "http_failure out = (case out of Response s \<Rightarrow> s \<ge> 400 | _ \<Rightarrow> False)"

section \<open>Exclude globs of the repository ingestor\<close>

text \<open>
  The program translates a glob to a regular expression with
  \<^verbatim>\<open>re.escape(pat).replace(r"\*\*", ".*").replace(r"\*", "[^/]*")\<close> and tests the path
  with \<^verbatim>\<open>re.fullmatch\<close>. \<^verbatim>\<open>re.escape\<close> puts a backslash before each of the characters
  \<^verbatim>\<open>()[]{}?*+-|^$\.&~#\<close>, space, tab, newline, carriage return, vertical tab and form
  feed.
\<close>

definition BSL :: nat where "BSL = 92"
definition STAR :: nat where "STAR = 42"
definition DOT :: nat where "DOT = 46"
definition SLASH :: nat where "SLASH = 47"

definition re_special :: "nat \<Rightarrow> bool" where
  "re_special c \<longleftrightarrow>
     c \<in> set [40, 41, 91, 93, 123, 125, 63, 42, 43, 45, 124, 94, 36, 92, 46, 38, 126, 35,
               32, 9, 10, 13, 11, 12]"

definition re_escape :: "pystr \<Rightarrow> pystr" where
  "re_escape s = concat (map (\<lambda>c. if re_special c then [BSL, c] else [c]) s)"

text \<open>
  \<^verbatim>\<open>s.replace(old, new)\<close>: the occurrences of \<open>old\<close> are replaced from left to right,
  without overlap; an empty \<open>old\<close> matches before every character and at the end.
\<close>

function replace_str :: "pystr \<Rightarrow> pystr \<Rightarrow> pystr \<Rightarrow> pystr" where
  "replace_str old new [] = (if old = [] then new else [])"
| "replace_str old new (c # cs) =
     (if old = [] then new @ c # replace_str old new cs
      else if take (length old) (c # cs) = old
      then new @ replace_str old new (drop (length old) (c # cs))
      else c # replace_str old new cs)"
  by pat_completeness auto
termination
  by (relation "measure (\<lambda>(old, new, s). length s)") auto

definition glob_to_regex :: "pystr \<Rightarrow> pystr" where
  "glob_to_regex pat =
     replace_str [BSL, STAR] (py ''[^/]*'')
       (replace_str [BSL, STAR, BSL, STAR] (py ''.*'') (re_escape pat))"

text \<open>
  The regular expressions that the translation can produce are sequences of three kinds
  of items: an escaped or plain literal character, \<^verbatim>\<open>.*\<close> and \<^verbatim>\<open>[^/]*\<close>. \<open>parse_rx\<close>
  reads such an expression and gives \<open>None\<close> for any other one. Without the
  \<^verbatim>\<open>DOTALL\<close> flag, which the program does not pass, \<^verbatim>\<open>.\<close> matches every character but
  the newline; \<^verbatim>\<open>[^/]\<close> matches every character but the slash.
\<close>

datatype rx_item = Lit nat | DotStar | NotSlashStar

definition is_alnum :: "nat \<Rightarrow> bool" where
  "is_alnum c \<longleftrightarrow> (48 \<le> c \<and> c \<le> 57) \<or> (65 \<le> c \<and> c \<le> 90) \<or> (97 \<le> c \<and> c \<le> 122)"

fun parse_rx :: "pystr \<Rightarrow> rx_item list option" where
  "parse_rx [] = Some []"
| "parse_rx (c # cs) =
     (if c = BSL then
        (case cs of
           [] \<Rightarrow> None
         | d # ds \<Rightarrow> if is_alnum d then None else map_option (Cons (Lit d)) (parse_rx ds))
      else if c = DOT then
        (case cs of
           [] \<Rightarrow> None
         | d # ds \<Rightarrow> if d = STAR then map_option (Cons DotStar) (parse_rx ds) else None)
      else if take 5 (c # cs) = py ''[^/]*'' then
        map_option (Cons NotSlashStar) (parse_rx (drop 4 cs))
      else if re_special c then None
      else map_option (Cons (Lit c)) (parse_rx cs))"

text \<open>\<^verbatim>\<open>re.fullmatch\<close> for a sequence of items: the whole string must be consumed.\<close>

fun rx_match :: "rx_item list \<Rightarrow> pystr \<Rightarrow> bool" where
  "rx_match [] s = (s = [])"
| "rx_match (Lit c # r) [] = False"
| "rx_match (Lit c # r) (d # ds) = (d = c \<and> rx_match r ds)"
| "rx_match (DotStar # r) [] = rx_match r []"
| "rx_match (DotStar # r) (d # ds) = (rx_match r (d # ds) \<or> (d \<noteq> NL \<and> rx_match (DotStar # r) ds))"
| "rx_match (NotSlashStar # r) [] = rx_match r []"
| "rx_match (NotSlashStar # r) (d # ds) =
     (rx_match r (d # ds) \<or> (d \<noteq> SLASH \<and> rx_match (NotSlashStar # r) ds))"

definition re_fullmatch :: "pystr \<Rightarrow> pystr \<Rightarrow> bool option" where
  "re_fullmatch rx s = map_option (\<lambda>items. rx_match items s) (parse_rx rx)"

text \<open>
  The loop over \<^verbatim>\<open>exclude_path_globs\<close>: the path is skipped as soon as one pattern
  matches it.
\<close>

fun path_skipped :: "pystr list \<Rightarrow> pystr \<Rightarrow> bool" where
  "path_skipped [] path = False"
| "path_skipped (pat # pats) path =
     (if re_fullmatch (glob_to_regex pat) path = Some True then True
      else path_skipped pats path)"

text \<open>
  The glob semantics in the words of the specification, for comparison: the pattern is read
  from left to right as a sequence of tokens, \<^verbatim>\<open>**\<close>, \<^verbatim>\<open>*\<close> or a literal character, and a
  path matches when it is the concatenation of one piece per token, where the piece of a
  literal is that character, the piece of \<^verbatim>\<open>*\<close> contains no slash, and the piece of
  \<^verbatim>\<open>**\<close> is any sequence of characters other than the newline.
\<close>

datatype glob_token = GLit nat | GStar | GStarStar

fun glob_tokens :: "pystr \<Rightarrow> glob_token list" where
  "glob_tokens [] = []"
| "glob_tokens [c] = (if c = STAR then [GStar] else [GLit c])"
| "glob_tokens (c # d # r) =
     (if c = STAR \<and> d = STAR then GStarStar # glob_tokens r
      else if c = STAR then GStar # glob_tokens (d # r)
      else GLit c # glob_tokens (d # r))"

fun piece_matches :: "glob_token \<Rightarrow> pystr \<Rightarrow> bool" where
  "piece_matches (GLit c) p = (p = [c])"
| "piece_matches GStar p = (SLASH \<notin> set p)"
| "piece_matches GStarStar p = (NL \<notin> set p)"

definition glob_matches :: "pystr \<Rightarrow> pystr \<Rightarrow> bool" where
  "glob_matches pat path \<longleftrightarrow>
     (\<exists>pieces. list_all2 piece_matches (glob_tokens pat) pieces \<and> concat pieces = path)"

text \<open>
  Auxiliary notions for the comparison: the escaped form of one character, the two
  replacement passes of the translation, and the regular-expression item of a glob token.
\<close>

definition esc :: "nat \<Rightarrow> pystr" where
  "esc c = (if re_special c then [BSL, c] else [c])"

definition R1 :: "pystr \<Rightarrow> pystr" where
  "R1 s = replace_str [BSL, STAR, BSL, STAR] (py ''.*'') s"

definition R2 :: "pystr \<Rightarrow> pystr" where
  "R2 s = replace_str [BSL, STAR] (py ''[^/]*'') s"

fun item_of :: "glob_token \<Rightarrow> rx_item" where
  "item_of (GLit c) = Lit c"
| "item_of GStar = NotSlashStar"
| "item_of GStarStar = DotStar"

section \<open>Discovery of documentation URLs\<close>

text \<open>
  What the program reads from outside is collected in a record: each field stands for one
  helper of the program that talks to the network or to a library outside the repository,
  and gives the helper's result. \<open>None\<close> means that the helper raises.
\<close>

record tree_node =
  node_type :: pystr
  node_path :: pystr
  node_size :: int

record release =
  rel_name :: "pystr option"
  rel_tag_name :: "pystr option"
  rel_body :: "pystr option"
  rel_html_url :: "pystr option"
  rel_published_at :: "pystr option"

record world =
  urijoin :: "pystr \<Rightarrow> pystr \<Rightarrow> pystr"
    \<comment> \<open>\<^verbatim>\<open>uritools.urijoin(base, ref)\<close>\<close>
  robots_sitemaps :: "pystr \<Rightarrow> pystr list"
    \<comment> \<open>\<^verbatim>\<open>_extract_sitemap_urls_from_robots(base)\<close>: the \<^verbatim>\<open>Sitemap:\<close> entries, empty when the fetch fails\<close>
  sitemap_locs :: "pystr \<Rightarrow> pystr list option"
    \<comment> \<open>\<^verbatim>\<open>_fetch_and_parse_sitemap(url)\<close>: the \<^verbatim>\<open>loc\<close> entries of one sitemap\<close>
  page_hrefs :: "pystr \<Rightarrow> pystr list option"
    \<comment> \<open>\<^verbatim>\<open>http_get(u)\<close> and the \<^verbatim>\<open>href\<close> attributes of the anchors of the page\<close>
  page_blob :: "pystr \<Rightarrow> (pystr option \<times> pystr) option"
    \<comment> \<open>in \<^verbatim>\<open>extract_doc_page(url)\<close>: the title and the joined text blocks before normalization\<close>
  org_repos :: "pystr \<Rightarrow> py_error + pystr list"
    \<comment> \<open>\<^verbatim>\<open>list_org_repos(org)\<close>, as the list of repository names, or the exception it raises\<close>
  repo_license :: "pystr \<Rightarrow> pystr option"
    \<comment> \<open>\<^verbatim>\<open>get_repo_license(org, name)\<close>, which never raises\<close>
  default_branch_sha :: "pystr \<Rightarrow> (pystr \<times> pystr option) option"
    \<comment> \<open>\<^verbatim>\<open>get_default_branch_sha(org, name)\<close>; the sha may be \<^verbatim>\<open>None\<close>\<close>
  repo_tree :: "pystr \<Rightarrow> pystr option \<Rightarrow> tree_node list option"
    \<comment> \<open>\<^verbatim>\<open>list_repo_tree(org, name, sha)\<close>\<close>
  raw_file :: "pystr \<Rightarrow> pystr \<Rightarrow> pystr \<Rightarrow> pystr option"
    \<comment> \<open>\<^verbatim>\<open>get_raw_file(org, name, branch, path)\<close>; \<open>None\<close> also when it raises\<close>
  file_ext :: "pystr \<Rightarrow> pystr"
    \<comment> \<open>\<^verbatim>\<open>os.path.splitext(path)[1].lower()\<close>\<close>
  releases_page :: "pystr \<Rightarrow> nat \<Rightarrow> release list option"
    \<comment> \<open>the releases listing of a repository, one page\<close>

definition SITEMAP_CANDIDATES :: "pystr list" where
  "SITEMAP_CANDIDATES =
     [py ''/sitemap.xml'', py ''/sitemap_index.xml'', py ''/sitemap-index.xml'',
      py ''/sitemap.xml.gz'', py ''/sitemap_index.xml.gz'', py ''/sitemap-index.xml.gz'']"

definition DOC_SECTION_HINTS :: "pystr list" where
  "DOC_SECTION_HINTS =
     [py ''/introduction'', py ''/getting-started'', py ''/architecture'',
      py ''/category/components-and-services'', py ''/components'', py ''/sdks'',
      py ''/OpenAPI-clients'', py ''/spec'', py ''/appendix'', py ''/release-notes'']"

text \<open>\<^verbatim>\<open>s.startswith(p)\<close>, \<^verbatim>\<open>s.endswith(p)\<close>, \<^verbatim>\<open>h in s\<close> and \<^verbatim>\<open>s.rstrip("/")\<close>.\<close>

definition startswith :: "pystr \<Rightarrow> pystr \<Rightarrow> bool" where
  "startswith s p \<longleftrightarrow> take (length p) s = p"

definition endswith :: "pystr \<Rightarrow> pystr \<Rightarrow> bool" where
  "endswith s p \<longleftrightarrow> length p \<le> length s \<and> drop (length s - length p) s = p"

fun str_contains :: "pystr \<Rightarrow> pystr \<Rightarrow> bool" where
  "str_contains h [] = (h = [])"
| "str_contains h (c # cs) = (startswith (c # cs) h \<or> str_contains h cs)"

definition rstrip_slash :: "pystr \<Rightarrow> pystr" where
  "rstrip_slash s = rev (dropWhile (\<lambda>c. c = SLASH) (rev s))"

definition is_docs_url :: "pystr \<Rightarrow> pystr \<Rightarrow> bool" where
  "is_docs_url u base \<longleftrightarrow>
     (if \<not> startswith u base then False
      else list_ex (\<lambda>h. str_contains h u) DOC_SECTION_HINTS)"

text \<open>\<^verbatim>\<open>list(dict.fromkeys(xs))\<close>: the first occurrence of each element, in order.\<close>

fun dedupe :: "pystr list \<Rightarrow> pystr list \<Rightarrow> pystr list" where
  "dedupe seen [] = []"
| "dedupe seen (x # xs) = (if x \<in> set seen then dedupe seen xs else x # dedupe (x # seen) xs)"

text \<open>
  The loop over the \<^verbatim>\<open>loc\<close> entries of one sitemap, on the pair of the work queue and the
  result set.
\<close>

fun scan_locs ::
  "pystr \<Rightarrow> pystr set \<Rightarrow> pystr list \<Rightarrow> pystr list \<times> pystr set \<Rightarrow> pystr list \<times> pystr set" where
  "scan_locs base seen_maps [] st = st"
| "scan_locs base seen_maps (loc # locs) (to_visit, found) =
     (if endswith loc (py ''.xml'') \<or> endswith loc (py ''.xml.gz'') then
        (if loc \<notin> seen_maps then scan_locs base seen_maps locs (to_visit @ [loc], found)
         else scan_locs base seen_maps locs (to_visit, found))
      else if is_docs_url loc base then scan_locs base seen_maps locs (to_visit, insert loc found)
      else scan_locs base seen_maps locs (to_visit, found))"

text \<open>
  The work-queue loop over the sitemaps. Nothing bounds the number of sitemaps that
  sitemap indexes can name, so the loop is a partial function: \<open>None\<close> is a run that
  does not end.
\<close>

partial_function (option) sitemap_loop ::
  "world \<Rightarrow> pystr \<Rightarrow> pystr list \<Rightarrow> pystr set \<Rightarrow> pystr set \<Rightarrow> pystr set option" where
  "sitemap_loop w base to_visit seen_maps found =
     (case to_visit of
        [] \<Rightarrow> Some found
      | sm # rest \<Rightarrow>
          if sm \<in> seen_maps then sitemap_loop w base rest seen_maps found
          else
            (case sitemap_locs w sm of
               None \<Rightarrow> sitemap_loop w base rest (insert sm seen_maps) found
             | Some locs \<Rightarrow>
                 (case scan_locs base (insert sm seen_maps) locs (rest, found) of
                    (to_visit', found') \<Rightarrow>
                      sitemap_loop w base to_visit' (insert sm seen_maps) found')))"

text \<open>The links of one page that the crawler enqueues.\<close>

definition full_link :: "world \<Rightarrow> pystr \<Rightarrow> pystr \<Rightarrow> pystr" where
  "full_link w u href = (if startswith href (py ''http'') then href else urijoin w u href)"

definition enqueue_links :: "world \<Rightarrow> pystr \<Rightarrow> pystr \<Rightarrow> pystr set \<Rightarrow> pystr list \<Rightarrow> pystr list" where
  "enqueue_links w base u visited hrefs =
     filter (\<lambda>full. is_docs_url full base \<and> full \<notin> visited)
       (map (full_link w u) (filter (\<lambda>href. \<not> startswith href (py ''#'')) (map strip hrefs)))"

text \<open>The breadth-first fallback crawl; like the sitemap loop it need not end.\<close>

partial_function (option) bfs_loop ::
  "world \<Rightarrow> pystr \<Rightarrow> pystr list \<Rightarrow> pystr set \<Rightarrow> pystr set \<Rightarrow> pystr set option" where
  "bfs_loop w base dq visited found =
     (case dq of
        [] \<Rightarrow> Some found
      | u # rest \<Rightarrow>
          if u \<in> visited then bfs_loop w base rest visited found
          else
            (case page_hrefs w u of
               None \<Rightarrow> bfs_loop w base rest (insert u visited) found
             | Some hrefs \<Rightarrow>
                 bfs_loop w base (rest @ enqueue_links w base u (insert u visited) hrefs)
                   (insert u visited)
                   (if is_docs_url u base then insert u found else found)))"

text \<open>
  \<open>sitemap_phase\<close> is steps 1 and 2 of \<^verbatim>\<open>discover_doc_urls\<close> with the sitemap loop,
  \<open>fallback_crawl\<close> is step 3 started from the seeds.
\<close>

definition sitemap_phase :: "world \<Rightarrow> pystr \<Rightarrow> pystr set option" where
  "sitemap_phase w base0 =
     (let base = rstrip_slash base0;
          sm_urls = robots_sitemaps w base @ map (urijoin w base) SITEMAP_CANDIDATES
      in sitemap_loop w base (dedupe [] sm_urls) {} {})"

definition fallback_crawl :: "world \<Rightarrow> pystr \<Rightarrow> pystr list \<Rightarrow> pystr set \<Rightarrow> pystr list option" where
  "fallback_crawl w base0 seeds found =
     (let base = rstrip_slash base0
      in map_option sorted_list_of_set (bfs_loop w base (map (urijoin w base) seeds) {} found))"

definition discover_doc_urls :: "world \<Rightarrow> pystr \<Rightarrow> pystr list \<Rightarrow> pystr list option" where
  "discover_doc_urls w base0 seeds =
     (case sitemap_phase w base0 of
        None \<Rightarrow> None
      | Some found \<Rightarrow>
          if found \<noteq> {} then Some (sorted_list_of_set found)
          else fallback_crawl w base0 seeds found)"

subsection \<open>Discovery in the words of the specification\<close>

text \<open>
  The specification describes discovery by what it reaches, not by work queues. These
  definitions follow its words and are compared with the loops above. A sitemap is
  reachable when \<^verbatim>\<open>robots.txt\<close> declares it, when it is one of the well-known candidates
  resolved against the base, or when a reachable sitemap that can be fetched lists it as
  an entry with the suffix \<^verbatim>\<open>.xml\<close> or \<^verbatim>\<open>.xml.gz\<close>. The sitemap result is the set of
  the other entries of the reachable sitemaps that pass the allowlist.
\<close>

definition nested_sitemaps :: "world \<Rightarrow> pystr \<Rightarrow> pystr set" where
  "nested_sitemaps w sm =
     (case sitemap_locs w sm of
        None \<Rightarrow> {}
      | Some locs \<Rightarrow> {loc \<in> set locs. endswith loc (py ''.xml'') \<or> endswith loc (py ''.xml.gz'')})"

definition sitemap_entries :: "world \<Rightarrow> pystr \<Rightarrow> pystr \<Rightarrow> pystr set" where
  "sitemap_entries w base sm =
     (case sitemap_locs w sm of
        None \<Rightarrow> {}
      | Some locs \<Rightarrow>
          {loc \<in> set locs. \<not> (endswith loc (py ''.xml'') \<or> endswith loc (py ''.xml.gz'')) \<and>
             is_docs_url loc base})"

inductive_set sitemap_reachable :: "world \<Rightarrow> pystr \<Rightarrow> pystr set" for w base where
  robots: "sm \<in> set (robots_sitemaps w base) \<Longrightarrow> sm \<in> sitemap_reachable w base"
| candidate: "c \<in> set SITEMAP_CANDIDATES \<Longrightarrow> urijoin w base c \<in> sitemap_reachable w base"
| nested: "sm \<in> sitemap_reachable w base \<Longrightarrow> loc \<in> nested_sitemaps w sm \<Longrightarrow>
     loc \<in> sitemap_reachable w base"

definition sitemap_urls :: "world \<Rightarrow> pystr \<Rightarrow> pystr set" where
  "sitemap_urls w base =
     {loc. \<exists>sm. sm \<in> sitemap_reachable w base \<and> loc \<in> sitemap_entries w base sm}"

text \<open>
  The crawl starts from the seed paths resolved against the base. The links of a page that
  can be fetched are its anchors, stripped, without those that start with \<^verbatim>\<open>#\<close>, resolved
  against the page unless they start with \<^verbatim>\<open>http\<close>, and kept when they pass the allowlist.
  A URL is reachable when it is a resolved seed or a link of a reachable page; the crawl
  result is the set of the reachable URLs that can be fetched and pass the allowlist.
\<close>

definition page_links :: "world \<Rightarrow> pystr \<Rightarrow> pystr \<Rightarrow> pystr set" where
  "page_links w base u =
     (case page_hrefs w u of
        None \<Rightarrow> {}
      | Some hrefs \<Rightarrow>
          {full. \<exists>href. href \<in> set hrefs \<and> \<not> startswith (strip href) (py ''#'') \<and>
             full = (if startswith (strip href) (py ''http'') then strip href
                     else urijoin w u (strip href)) \<and>
             is_docs_url full base})"

inductive_set crawl_reachable :: "world \<Rightarrow> pystr \<Rightarrow> pystr list \<Rightarrow> pystr set"
  for w base seeds where
  seed: "s \<in> set seeds \<Longrightarrow> urijoin w base s \<in> crawl_reachable w base seeds"
| link: "u \<in> crawl_reachable w base seeds \<Longrightarrow> v \<in> page_links w base u \<Longrightarrow>
     v \<in> crawl_reachable w base seeds"

definition crawl_urls :: "world \<Rightarrow> pystr \<Rightarrow> pystr list \<Rightarrow> pystr set" where
  "crawl_urls w base seeds =
     {u. u \<in> crawl_reachable w base seeds \<and> page_hrefs w u \<noteq> None \<and> is_docs_url u base}"
section \<open>Building the corpus\<close>

text \<open>
  The configuration dictionary, with the keys \<^verbatim>\<open>build_corpus\<close> reads. A list that is
  missing or \<^verbatim>\<open>None\<close> in the configuration is the empty list here, as \<^verbatim>\<open>x or []\<close>
  makes it.
\<close>

record config =
  cfg_docs_base :: pystr
  cfg_doc_seeds :: "pystr list"
  cfg_target_chars :: int
  cfg_code_target_chars :: int
  cfg_hard_max_chars :: int
  cfg_min_chars :: int
  cfg_org :: pystr
  cfg_include_repos :: "pystr list"
  cfg_exclude_repos :: "pystr list"
  cfg_include_exts :: "pystr list"
  cfg_max_file_bytes :: int
  cfg_exclude_path_globs :: "pystr list"
  cfg_releases_include_from :: "pystr list"

text \<open>
  The fields carry the prefix \<open>cfg_\<close>, and those of a corpus record below the prefix
  \<open>rec_\<close>, to keep the names of the keys free for variables.
\<close>

text \<open>
  A record of the corpus. Of the fields of the program's record, the ones that identify
  the source and the chunk are kept; the license, the fetch time, the attribution, the
  token estimate and the hash play no part in the properties below and are left out.
\<close>

record corpus_record =
  rec_id :: pystr
  rec_source_type :: pystr
  rec_title :: "pystr option"
  rec_section :: "pystr option"
  rec_url :: "pystr option"
  rec_repo :: "pystr option"
  rec_path :: "pystr option"
  rec_commit :: "pystr option"
  rec_version :: "pystr option"
  rec_content :: pystr
  rec_content_type :: pystr
  rec_chunk_index :: nat
  rec_chunk_count :: nat

text \<open>The warning lines that the three \<^verbatim>\<open>except\<close> clauses print.\<close>

datatype warning = DocsFailed pystr | RepoFailed pystr | ReleasesFailed pystr

text \<open>\<^verbatim>\<open>str(n)\<close> for a natural number, and the three formats of the record id.\<close>

function str_nat :: "nat \<Rightarrow> pystr" where
  "str_nat n = (if n < 10 then [48 + n] else str_nat (n div 10) @ [48 + n mod 10])"
  by pat_completeness auto
termination
  by (relation "measure id") auto

definition docs_id :: "pystr \<Rightarrow> nat \<Rightarrow> pystr" where
  "docs_id u idx = py ''docs::'' @ u @ py ''::chunk-'' @ str_nat (idx + 1)"

definition repo_id :: "pystr \<Rightarrow> pystr \<Rightarrow> pystr \<Rightarrow> nat \<Rightarrow> pystr" where
  "repo_id name p sha idx =
     py ''repo::'' @ name @ py ''::'' @ p @ py ''::'' @ take 8 sha @ py ''::chunk-'' @ str_nat (idx + 1)"

definition release_id :: "pystr \<Rightarrow> pystr \<Rightarrow> nat \<Rightarrow> pystr" where
  "release_id repo_name name idx =
     py ''release::'' @ repo_name @ py ''::'' @ name @ py ''::chunk-'' @ str_nat (idx + 1)"

subsection \<open>Documentation pages\<close>

text \<open>
  \<^verbatim>\<open>extract_doc_page\<close> normalizes the text of the page with \<open>clean_text\<close>; the result
  here is the title and the content.
\<close>

definition extract_doc_page :: "world \<Rightarrow> pystr \<Rightarrow> (pystr option \<times> pystr) option" where
  "extract_doc_page w u = map_option (\<lambda>(t, blob). (t, clean_text blob)) (page_blob w u)"

definition docs_records :: "pystr \<Rightarrow> pystr option \<Rightarrow> pystr list \<Rightarrow> corpus_record list" where
  "docs_records u t chunks =
     map (\<lambda>(idx, ch).
           \<lparr> rec_id = docs_id u idx, rec_source_type = py ''docs'', rec_title = t,
             rec_section = None, rec_url = Some u,
             rec_repo = None, rec_path = None, rec_commit = None, rec_version = None, rec_content = ch,
             rec_content_type = py ''text'', rec_chunk_index = idx, rec_chunk_count = length chunks \<rparr>)
         (enumerate 0 chunks)"

text \<open>
  One iteration of the loop over the documentation URLs: the records and the warnings it
  adds. A page whose content is empty or shorter than 200 characters is passed over by
  \<^verbatim>\<open>continue\<close>; an exception of the extraction or of the chunker prints a warning.
\<close>

definition docs_page :: "config \<Rightarrow> world \<Rightarrow> pystr \<Rightarrow> corpus_record list \<times> warning list" where
  "docs_page cfg w u =
     (case extract_doc_page w u of
        None \<Rightarrow> ([], [DocsFailed u])
      | Some (t, text) \<Rightarrow>
          if text = [] \<or> length text < 200 then ([], [])
          else
            (case split_into_chunks text (cfg_target_chars cfg) (cfg_hard_max_chars cfg) (cfg_min_chars cfg) of
               Inl e \<Rightarrow> ([], [DocsFailed u])
             | Inr chunks \<Rightarrow> (docs_records u t chunks, [])))"

fun docs_loop ::
  "config \<Rightarrow> world \<Rightarrow> pystr list \<Rightarrow> corpus_record list \<times> warning list
     \<Rightarrow> corpus_record list \<times> warning list" where
  "docs_loop cfg w [] st = st"
| "docs_loop cfg w (u # us) (records, warns) =
     (case docs_page cfg w u of
        (rs, ws) \<Rightarrow> docs_loop cfg w us (records @ rs, warns @ ws))"

subsection \<open>Repositories\<close>

definition repo_names :: "config \<Rightarrow> pystr list \<Rightarrow> pystr list" where
  "repo_names cfg listed =
     filter (\<lambda>n. n \<notin> set (cfg_exclude_repos cfg))
       (if cfg_include_repos cfg \<noteq> [] then cfg_include_repos cfg else listed)"

text \<open>\<^verbatim>\<open>os.path.basename(path)\<close>: what follows the last slash.\<close>

definition basename :: "pystr \<Rightarrow> pystr" where
  "basename p = rev (takeWhile (\<lambda>c. c \<noteq> SLASH) (rev p))"

definition max_bytes :: "config \<Rightarrow> int" where
  "max_bytes cfg = (if cfg_max_file_bytes cfg \<noteq> 0 then cfg_max_file_bytes cfg else 800000)"

definition repo_records ::
  "config \<Rightarrow> world \<Rightarrow> pystr \<Rightarrow> pystr \<Rightarrow> pystr \<Rightarrow> pystr list \<Rightarrow> corpus_record list" where
  "repo_records cfg w name p sha cchunks =
     map (\<lambda>(idx, ch).
           \<lparr> rec_id = repo_id name p sha idx, rec_source_type = py ''repo'',
             rec_title = Some (basename p), rec_section = None, rec_url = None,
             rec_repo = Some (cfg_org cfg @ py ''/'' @ name), rec_path = Some p, rec_commit = Some sha,
             rec_version = None, rec_content = ch,
             content_type =
               (if file_ext w p \<notin> {py ''.md'', py ''.mdx''} then py ''code'' else py ''markdown''),
             rec_chunk_index = idx, rec_chunk_count = length cchunks \<rparr>)
         (enumerate 0 cchunks)"

text \<open>
  One node of the repository tree: the records it adds, or the exception that ends the
  ingestion of this repository. The filters end the iteration with \<^verbatim>\<open>continue\<close>. With a
  sha that is \<^verbatim>\<open>None\<close>, \<^verbatim>\<open>sha[:8]\<close> raises \<^verbatim>\<open>TypeError\<close> when the first record is made.
\<close>

definition node_records ::
  "config \<Rightarrow> world \<Rightarrow> pystr \<Rightarrow> pystr \<Rightarrow> pystr option \<Rightarrow> tree_node
     \<Rightarrow> py_error + corpus_record list" where
  "node_records cfg w name branch sha node =
     (if node_type node \<noteq> py ''blob'' then Inr []
      else if cfg_include_exts cfg \<noteq> [] \<and> file_ext w (node_path node) \<notin> set (cfg_include_exts cfg)
        then Inr []
      else if node_size node \<noteq> 0 \<and> node_size node > max_bytes cfg then Inr []
      else if path_skipped (cfg_exclude_path_globs cfg) (node_path node) then Inr []
      else
        (case raw_file w name branch (node_path node) of
           None \<Rightarrow> Inr []
         | Some text0 \<Rightarrow>
             if text0 = [] then Inr []
             else
               (case split_into_chunks (clean_text text0) (cfg_code_target_chars cfg)
                       (cfg_hard_max_chars cfg) (cfg_min_chars cfg) of
                  Inl e \<Rightarrow> Inl e
                | Inr cchunks \<Rightarrow>
                    if cchunks = [] then Inr []
                    else
                      (case sha of
                         None \<Rightarrow> Inl TypeError
                       | Some s \<Rightarrow> Inr (repo_records cfg w name (node_path node) s cchunks)))))"

fun node_loop ::
  "config \<Rightarrow> world \<Rightarrow> pystr \<Rightarrow> pystr \<Rightarrow> pystr option \<Rightarrow> tree_node list \<Rightarrow> corpus_record list
     \<Rightarrow> corpus_record list \<times> warning list" where
  "node_loop cfg w name branch sha [] records = (records, [])"
| "node_loop cfg w name branch sha (node # nodes) records =
     (case node_records cfg w name branch sha node of
        Inl e \<Rightarrow> (records, [RepoFailed name])
      | Inr rs \<Rightarrow> node_loop cfg w name branch sha nodes (records @ rs))"

definition repo_ingest ::
  "config \<Rightarrow> world \<Rightarrow> pystr \<Rightarrow> corpus_record list \<Rightarrow> corpus_record list \<times> warning list" where
  "repo_ingest cfg w name records =
     (case default_branch_sha w name of
        None \<Rightarrow> (records, [RepoFailed name])
      | Some (branch, sha) \<Rightarrow>
          (case repo_tree w name sha of
             None \<Rightarrow> (records, [RepoFailed name])
           | Some tree \<Rightarrow> node_loop cfg w name branch sha tree records))"

fun repos_loop ::
  "config \<Rightarrow> world \<Rightarrow> pystr list \<Rightarrow> corpus_record list \<times> warning list
     \<Rightarrow> corpus_record list \<times> warning list" where
  "repos_loop cfg w [] st = st"
| "repos_loop cfg w (name # names) (records, warns) =
     (case repo_ingest cfg w name records of
        (records', ws) \<Rightarrow> repos_loop cfg w names (records', warns @ ws))"

subsection \<open>Releases\<close>

text \<open>
  \<^verbatim>\<open>rel.get("name") or rel.get("tag_name")\<close>, with \<open>None\<close> for a result that is not
  truthy: such a release is passed over.
\<close>

definition truthy :: "pystr option \<Rightarrow> pystr option" where
  "truthy x = (case x of None \<Rightarrow> None | Some s \<Rightarrow> if s = [] then None else Some s)"

definition release_title :: "release \<Rightarrow> pystr option" where
  "release_title rel =
     (case truthy (rel_name rel) of Some n \<Rightarrow> Some n | None \<Rightarrow> truthy (rel_tag_name rel))"

definition release_text :: "pystr \<Rightarrow> release \<Rightarrow> pystr" where
  "release_text name rel =
     py ''# '' @ name @ [NL, NL] @ py ''Published: '' @
     (case rel_published_at rel of None \<Rightarrow> py ''None'' | Some d \<Rightarrow> d) @ [NL, NL] @
     (case truthy (rel_body rel) of None \<Rightarrow> [] | Some b \<Rightarrow> b)"

definition release_records ::
  "config \<Rightarrow> pystr \<Rightarrow> pystr \<Rightarrow> release \<Rightarrow> pystr list \<Rightarrow> corpus_record list" where
  "release_records cfg repo_name name rel chunks =
     map (\<lambda>(idx, ch).
           \<lparr> rec_id = release_id repo_name name idx, rec_source_type = py ''release'',
             rec_title = Some name, rec_section = Some repo_name, rec_url = rel_html_url rel,
             rec_repo = Some (cfg_org cfg @ py ''/'' @ repo_name), rec_path = None, rec_commit = None,
             rec_version = Some name, rec_content = ch, rec_content_type = py ''text'',
             rec_chunk_index = idx, rec_chunk_count = length chunks \<rparr>)
         (enumerate 0 chunks)"

definition release_step :: "config \<Rightarrow> pystr \<Rightarrow> release \<Rightarrow> py_error + corpus_record list" where
  "release_step cfg repo_name rel =
     (case release_title rel of
        None \<Rightarrow> Inr []
      | Some name \<Rightarrow>
          (case split_into_chunks (release_text name rel) (cfg_target_chars cfg)
                  (cfg_hard_max_chars cfg) (cfg_min_chars cfg) of
             Inl e \<Rightarrow> Inl e
           | Inr chunks \<Rightarrow> Inr (release_records cfg repo_name name rel chunks)))"

text \<open>The releases of one page; an exception ends the loop and is handed on.\<close>

fun page_loop ::
  "config \<Rightarrow> pystr \<Rightarrow> release list \<Rightarrow> corpus_record list
     \<Rightarrow> corpus_record list \<times> py_error option" where
  "page_loop cfg repo_name [] records = (records, None)"
| "page_loop cfg repo_name (rel # rels) records =
     (case release_step cfg repo_name rel of
        Inl e \<Rightarrow> (records, Some e)
      | Inr rs \<Rightarrow> page_loop cfg repo_name rels (records @ rs))"

text \<open>
  The \<^verbatim>\<open>while True\<close> loop over the pages of one repository's releases. It ends at the
  first empty page or exception; a listing without an empty page makes it run forever.
\<close>

partial_function (option) releases_loop ::
  "world \<Rightarrow> config \<Rightarrow> pystr \<Rightarrow> nat \<Rightarrow> corpus_record list
     \<Rightarrow> (corpus_record list \<times> warning list) option" where
  "releases_loop w cfg repo_name page records =
     (case releases_page w repo_name page of
        None \<Rightarrow> Some (records, [ReleasesFailed repo_name])
      | Some rels \<Rightarrow>
          if rels = [] then Some (records, [])
          else
            (case page_loop cfg repo_name rels records of
               (records', Some e) \<Rightarrow> Some (records', [ReleasesFailed repo_name])
             | (records', None) \<Rightarrow> releases_loop w cfg repo_name (Suc page) records'))"

fun releases_phase ::
  "world \<Rightarrow> config \<Rightarrow> pystr list \<Rightarrow> corpus_record list \<times> warning list
     \<Rightarrow> (corpus_record list \<times> warning list) option" where
  "releases_phase w cfg [] st = Some st"
| "releases_phase w cfg (repo_name # rest) (records, warns) =
     (case releases_loop w cfg repo_name 1 records of
        None \<Rightarrow> None
      | Some (records', ws) \<Rightarrow> releases_phase w cfg rest (records', warns @ ws))"

subsection \<open>The whole run\<close>

text \<open>
  \<^verbatim>\<open>build_corpus\<close> up to the list of records it writes, with the warnings it printed.
  \<open>None\<close> is a run that does not end; an exception of \<^verbatim>\<open>list_org_repos\<close> is not caught
  and ends the run.
\<close>

definition build_corpus ::
  "config \<Rightarrow> world \<Rightarrow> (py_error + corpus_record list \<times> warning list) option" where
  "build_corpus cfg w =
     (case discover_doc_urls w (rstrip_slash (cfg_docs_base cfg)) (cfg_doc_seeds cfg) of
        None \<Rightarrow> None
      | Some doc_urls \<Rightarrow>
          (case org_repos w (cfg_org cfg) of
             Inl e \<Rightarrow> Some (Inl e)
           | Inr listed \<Rightarrow>
               map_option Inr
                 (releases_phase w cfg (cfg_releases_include_from cfg)
                    (repos_loop cfg w (repo_names cfg listed)
                       (docs_loop cfg w doc_urls ([], []))))))"

text \<open>The ids of the records of a run, in the order of the corpus.\<close>

definition corpus_ids :: "config \<Rightarrow> world \<Rightarrow> (py_error + pystr list) option" where
  "corpus_ids cfg w = map_option (map_sum id (map rec_id \<circ> fst)) (build_corpus cfg w)"

subsection \<open>Conditions on the sources\<close>

text \<open>
  The conditions under which the ids of a run are pairwise distinct. A repository tree
  has distinct paths when no two of its blobs share a path; a repository's releases have
  distinct titles when no title (the name, or else the tag) occurs twice on one page of the
  listing or on two pages. \<open>repos_ok\<close> and \<open>releases_ok\<close> ask in addition that the
  list of names has no repetition and that no name contains a colon.
\<close>

definition COLON :: nat where "COLON = 58"

definition is_blob :: "tree_node \<Rightarrow> bool" where
  "is_blob node \<longleftrightarrow> node_type node = py ''blob''"

definition tree_paths_distinct :: "world \<Rightarrow> pystr \<Rightarrow> bool" where
  "tree_paths_distinct w name \<longleftrightarrow>
     (\<forall>branch sha tree.
        default_branch_sha w name = Some (branch, sha) \<and> repo_tree w name sha = Some tree \<longrightarrow>
        distinct (map node_path (filter is_blob tree)))"

definition repos_ok :: "world \<Rightarrow> pystr list \<Rightarrow> bool" where
  "repos_ok w names \<longleftrightarrow>
     distinct names \<and> (\<forall>n\<in>set names. COLON \<notin> set n \<and> tree_paths_distinct w n)"

definition page_titles :: "release list \<Rightarrow> pystr list" where
  "page_titles rels =
     concat (map (\<lambda>rel. case release_title rel of None \<Rightarrow> [] | Some m \<Rightarrow> [m]) rels)"

definition release_titles_distinct :: "world \<Rightarrow> pystr \<Rightarrow> bool" where
  "release_titles_distinct w rn \<longleftrightarrow>
     (\<forall>p rels. releases_page w rn p = Some rels \<longrightarrow> distinct (page_titles rels)) \<and>
     (\<forall>p q rels rels'.
        p \<noteq> q \<and> releases_page w rn p = Some rels \<and> releases_page w rn q = Some rels' \<longrightarrow>
        set (page_titles rels) \<inter> set (page_titles rels') = {})"

definition releases_ok :: "world \<Rightarrow> pystr list \<Rightarrow> bool" where
  "releases_ok w rns \<longleftrightarrow>
     distinct rns \<and> (\<forall>rn\<in>set rns. COLON \<notin> set rn \<and> release_titles_distinct w rn)"

subsection \<open>Auxiliary notions of the proofs\<close>

text \<open>
  A page is good when its normalized content has at least 200 characters and short when it
  has fewer. The predicates \<open>docs_rec\<close>, \<open>repo_rec\<close> and \<open>release_rec\<close> say which
  loop a record comes from and what form its id has.
\<close>

definition is_digit :: "nat \<Rightarrow> bool" where
  "is_digit c \<longleftrightarrow> 48 \<le> c \<and> c \<le> 57"

definition good_doc :: "world \<Rightarrow> pystr \<Rightarrow> bool" where
  "good_doc w u \<longleftrightarrow> (\<exists>t text. extract_doc_page w u = Some (t, text) \<and> 200 \<le> length text)"

definition short_doc :: "world \<Rightarrow> pystr \<Rightarrow> bool" where
  "short_doc w u \<longleftrightarrow> (\<exists>t text. extract_doc_page w u = Some (t, text) \<and> length text < 200)"

definition blob_paths :: "tree_node list \<Rightarrow> pystr set" where
  "blob_paths nodes = set (map node_path (filter is_blob nodes))"

definition docs_rec :: "world \<Rightarrow> corpus_record \<Rightarrow> bool" where
  "docs_rec w r \<longleftrightarrow>
     rec_source_type r = py ''docs'' \<and>
     (\<exists>u k. rec_id r = docs_id u k \<and> rec_url r = Some u \<and> good_doc w u)"

definition repo_rec :: "pystr set \<Rightarrow> corpus_record \<Rightarrow> bool" where
  "repo_rec N r \<longleftrightarrow>
     rec_source_type r = py ''repo'' \<and> (\<exists>n p s k. n \<in> N \<and> rec_id r = repo_id n p s k)"

definition titles_from :: "world \<Rightarrow> pystr \<Rightarrow> nat \<Rightarrow> pystr set" where
  "titles_from w rn p =
     {m. \<exists>q rels. p \<le> q \<and> releases_page w rn q = Some rels \<and> m \<in> set (page_titles rels)}"

definition release_rec_t :: "pystr \<Rightarrow> pystr set \<Rightarrow> corpus_record \<Rightarrow> bool" where
  "release_rec_t rn M r \<longleftrightarrow>
     rec_source_type r = py ''release'' \<and> (\<exists>m k. m \<in> M \<and> rec_id r = release_id rn m k)"

definition release_rec :: "pystr set \<Rightarrow> corpus_record \<Rightarrow> bool" where
  "release_rec R r \<longleftrightarrow>
     rec_source_type r = py ''release'' \<and> (\<exists>rn m k. rn \<in> R \<and> rec_id r = release_id rn m k)"

section \<open>Concrete worlds\<close>

text \<open>
  \<^verbatim>\<open>uritools.urijoin(base, ref)\<close> for a reference that is an absolute path such as
  \<^verbatim>\<open>/sitemap.xml\<close>: the scheme and the authority of the base, when the base has the form
  \<^verbatim>\<open>scheme://authority\<close> followed by a path, and then the reference. A base without a
  scheme has neither, and the result is the reference. The worlds below join only such
  references.
\<close>

definition uri_origin :: "pystr \<Rightarrow> pystr" where
  "uri_origin u =
     (let scheme = takeWhile (\<lambda>c. c \<noteq> COLON) u in
      if take 3 (drop (length scheme) u) = py ''://''
      then scheme @ py ''://'' @ takeWhile (\<lambda>c. c \<noteq> SLASH) (drop (length scheme + 3) u)
      else [])"

definition join_abs_path :: "pystr \<Rightarrow> pystr \<Rightarrow> pystr" where
  "join_abs_path base ref = uri_origin base @ ref"

text \<open>
  Two small worlds for the runs of the whole program. In \<open>w0\<close> the file \<^verbatim>\<open>robots.txt\<close>
  names one sitemap, \<^verbatim>\<open>m\<close>, whose only entry is not a documentation URL, and no page can
  be fetched; \<open>w1\<close> differs in the sitemap, which lists two documentation URLs and one
  other URL.
\<close>

definition w0 :: world where
  "w0 = \<lparr> urijoin = join_abs_path,
          robots_sitemaps = (\<lambda>b. [py ''m'']),
          sitemap_locs = (\<lambda>u. if u = py ''m'' then Some [py ''b/x''] else None),
          page_hrefs = (\<lambda>u. None),
          page_blob = (\<lambda>u. None),
          org_repos = (\<lambda>org. Inr []),
          repo_license = (\<lambda>n. None),
          default_branch_sha = (\<lambda>n. None),
          repo_tree = (\<lambda>n s. None),
          raw_file = (\<lambda>n b p. None),
          file_ext = (\<lambda>p. []),
          releases_page = (\<lambda>n k. None) \<rparr>"

definition w1 :: world where
  "w1 = w0 \<lparr> sitemap_locs :=
            (\<lambda>u. if u = py ''m'' then Some [py ''b/spec'', py ''b/x'', py ''b/sdks''] else None) \<rparr>"

text \<open>
  A configuration without seeds, includes or excludes, and three more worlds. In \<open>w2\<close> the
  organization has the repositories \<^verbatim>\<open>a\<close> and \<^verbatim>\<open>b\<close>, each with one file
  \<^verbatim>\<open>README.md\<close> of two paragraphs, which the chunker splits in two under \<open>cfg0\<close>. In
  \<open>w3\<close> the repository \<^verbatim>\<open>r\<close> has two releases with the same name \<^verbatim>\<open>v1\<close> and different
  tags. In \<open>w4\<close> the sitemap lists two documentation pages, one with the content
  \<^verbatim>\<open>tiny\<close> and one with a content of 200 characters.
\<close>

definition cfg0 :: config where
  "cfg0 = \<lparr> cfg_docs_base = py ''b/'', cfg_doc_seeds = [],
            cfg_target_chars = 3, cfg_code_target_chars = 3, cfg_hard_max_chars = 3,
            cfg_min_chars = 0, cfg_org = py ''o'', cfg_include_repos = [],
            cfg_exclude_repos = [], cfg_include_exts = [], cfg_max_file_bytes = 0,
            cfg_exclude_path_globs = [], cfg_releases_include_from = [] \<rparr>"

definition w2 :: world where
  "w2 = w0 \<lparr> robots_sitemaps := (\<lambda>b. []),
            org_repos := (\<lambda>og. Inr [py ''a'', py ''b'']),
            default_branch_sha := (\<lambda>n. Some (py ''main'', Some (py ''0123456789abcdef''))),
            repo_tree := (\<lambda>n s. Some [\<lparr> node_type = py ''blob'', node_path = py ''README.md'',
                                        node_size = 0 \<rparr>]),
            raw_file := (\<lambda>n b p. Some (py ''aa'' @ [NL, NL] @ py ''bb'')),
            file_ext := (\<lambda>p. py ''.md'') \<rparr>"

definition cfg3 :: config where
  "cfg3 = cfg0 \<lparr> cfg_hard_max_chars := 100, cfg_releases_include_from := [py ''r''] \<rparr>"

definition w3 :: world where
  "w3 = w0 \<lparr> robots_sitemaps := (\<lambda>b. []),
            releases_page := (\<lambda>n k. if k = 1 then
               Some [\<lparr> rel_name = Some (py ''v1''), rel_tag_name = Some (py ''t1''), rel_body = None,
                        rel_html_url = None, rel_published_at = None \<rparr>,
                     \<lparr> rel_name = Some (py ''v1''), rel_tag_name = Some (py ''t2''), rel_body = None,
                        rel_html_url = None, rel_published_at = None \<rparr>]
               else Some []) \<rparr>"

definition cfg4 :: config where
  "cfg4 = cfg0 \<lparr> cfg_target_chars := 500, cfg_hard_max_chars := 1000 \<rparr>"

definition w4 :: world where
  "w4 = w1 \<lparr> page_blob := (\<lambda>u. if u = py ''b/spec'' then Some (None, py ''tiny'')
                              else if u = py ''b/sdks'' then Some (Some (py ''T''), replicate 200 97)
                              else None) \<rparr>"

text \<open>
  Two worlds for discovery, on the site \<^verbatim>\<open>http://d.io\<close>. In both, \<^verbatim>\<open>robots.txt\<close> names
  the sitemap \<^verbatim>\<open>maps.xml\<close>, which lists the nested sitemap \<^verbatim>\<open>blog/sitemap.xml\<close> and a
  page outside the documentation sections; none of the well-known candidates exists. In
  \<open>w5\<close> the nested sitemap lists one page outside the documentation sections, so the
  sitemaps give nothing; in \<open>w6\<close> it lists two documentation pages and a page of another
  site. The pages: \<^verbatim>\<open>/spec\<close> links to a fragment, to \<^verbatim>\<open>/sdks\<close> (with blanks around it),
  to a page outside the documentation sections, to another site and to itself;
  \<^verbatim>\<open>/sdks\<close> links back to \<^verbatim>\<open>/spec\<close> and to \<^verbatim>\<open>/appendix\<close>, which cannot be
  fetched; \<^verbatim>\<open>/intro\<close> is outside the documentation sections and links to
  \<^verbatim>\<open>/architecture\<close>, which has no links.
\<close>

definition w5 :: world where
  "w5 = w0 \<lparr>
     robots_sitemaps := (\<lambda>b. [py ''http://d.io/maps.xml'']),
     sitemap_locs := (\<lambda>u.
        if u = py ''http://d.io/maps.xml''
          then Some [py ''http://d.io/blog/sitemap.xml'', py ''http://d.io/about'']
        else if u = py ''http://d.io/blog/sitemap.xml'' then Some [py ''http://d.io/blog/a'']
        else None),
     page_hrefs := (\<lambda>u.
        if u = py ''http://d.io/spec''
          then Some [py ''#top'', py '' /sdks '', py ''http://d.io/about'', py ''http://e.io/spec'',
                     py ''/spec'']
        else if u = py ''http://d.io/sdks'' then Some [py ''/spec'', py ''http://d.io/appendix'']
        else if u = py ''http://d.io/intro'' then Some [py ''/architecture'']
        else if u = py ''http://d.io/architecture'' then Some []
        else None) \<rparr>"

definition w6 :: world where
  "w6 = w5 \<lparr> sitemap_locs := (\<lambda>u.
        if u = py ''http://d.io/maps.xml''
          then Some [py ''http://d.io/blog/sitemap.xml'', py ''http://d.io/about'']
        else if u = py ''http://d.io/blog/sitemap.xml''
          then Some [py ''http://d.io/spec/a'', py ''http://e.io/spec'', py ''http://d.io/appendix'']
        else None) \<rparr>"
section \<open>Properties of the chunker\<close>

text \<open>The definitions a concrete run of the chunker unfolds.\<close>

lemmas eval_defs = split_into_chunks_def py_def NL_def strip_def is_space_def flush_buf_def
  brutal_split_def py_range0_def py_slice_def slice_bound_def

lemma length_strip_le: "length (strip s) \<le> length s"
proof -
  have "length (strip s) \<le> length (dropWhile is_space s)"
    unfolding strip_def by (simp add: length_dropWhile_le order_trans [OF length_dropWhile_le])
  also have "\<dots> \<le> length s" by (rule length_dropWhile_le)
  finally show ?thesis .
qed

lemma length_join_snoc:
  "length (join sep (buf @ [p])) =
     (if buf = [] then length p else length (join sep buf) + length sep + length p)"
  by (induction sep buf rule: join.induct) auto

lemma length_py_slice_le:
  "0 \<le> i \<Longrightarrow> 0 < h \<Longrightarrow> int (length (py_slice p i (i + h))) \<le> h"
  by (auto simp: py_slice_def slice_bound_def Let_def min_def)

lemma brutal_split_cases:
  "(hard_max = 0 \<and> brutal_split p hard_max = Inl ValueError) \<or>
   (hard_max \<noteq> 0 \<and> (\<exists>pieces. brutal_split p hard_max = Inr pieces \<and>
       (\<forall>c\<in>set pieces. int (length c) \<le> hard_max)))"
proof (cases "hard_max = 0")
  case True
  then show ?thesis by (simp add: brutal_split_def py_range0_def)
next
  case False
  show ?thesis
  proof (cases "0 < hard_max")
    case True
    then show ?thesis
      using length_py_slice_le [of _ hard_max p]
      by (auto simp: brutal_split_def py_range0_def)
  next
    case neg: False
    with False have "hard_max < 0" by simp
    then show ?thesis by (auto simp: brutal_split_def py_range0_def)
  qed
qed

lemma strip_join_bound:
  assumes "buf_ok h buf cur" and "buf \<noteq> []"
  shows "int (length (strip (join [NL, NL] buf))) \<le> h"
  using assms length_strip_le [of "join [NL, NL] buf"] by (auto simp: buf_ok_def)

lemma flush_buf_bound:
  assumes "\<forall>c\<in>set chunks. int (length c) \<le> h" and "buf_ok h buf cur"
  shows "\<forall>c\<in>set (flush_buf m chunks buf). int (length c) \<le> h"
  using assms(1) strip_join_bound [OF assms(2)] by (auto simp: flush_buf_def Let_def)

lemma chunk_loop_bound:
  assumes "t \<le> h"
  shows "\<forall>c\<in>set chunks. int (length c) \<le> h \<Longrightarrow> buf_ok h buf cur \<Longrightarrow>
    (case chunk_loop t h m ps (chunks, buf, cur) of
       Inl e \<Rightarrow> e = ValueError \<and> h = 0
     | Inr (chunks', buf', cur') \<Rightarrow>
         (\<forall>c\<in>set chunks'. int (length c) \<le> h) \<and> buf_ok h buf' cur')"
proof (induction ps arbitrary: chunks buf cur)
  case Nil
  then show ?case by simp
next
  case (Cons p ps)
  show ?case
  proof (cases "cur + int (length p) + 2 \<le> t")
    case True
    have "buf_ok h (buf @ [p]) (cur + int (length p) + 2)"
      using True assms Cons.prems(2) by (auto simp: buf_ok_def length_join_snoc)
    from Cons.IH [OF Cons.prems(1) this] True show ?thesis by simp
  next
    case False
    let ?chunks1 = "flush_buf m chunks buf"
    have c1: "\<forall>c\<in>set ?chunks1. int (length c) \<le> h"
      by (rule flush_buf_bound [OF Cons.prems])
    show ?thesis
    proof (cases "int (length p) > h")
      case True
      from brutal_split_cases [of h p] show ?thesis
      proof (elim disjE conjE exE)
        assume "h = 0" "brutal_split p h = Inl ValueError"
        with False True show ?thesis by (simp add: Let_def)
      next
        fix pieces
        assume b: "brutal_split p h = Inr pieces" "\<forall>c\<in>set pieces. int (length c) \<le> h"
        have "\<forall>c\<in>set (?chunks1 @ pieces). int (length c) \<le> h"
          using c1 b(2) by auto
        from Cons.IH [OF this, of "[]" 0] False True b(1) show ?thesis
          by (simp add: Let_def buf_ok_def)
      qed
    next
      case small: False
      have "buf_ok h [p] (int (length p))"
        using small by (simp add: buf_ok_def)
      from Cons.IH [OF c1 this] False small show ?thesis
        by (simp add: Let_def)
    qed
  qed
qed

text \<open>
  Claim C1 (chunk size bound), as amended: when \<open>target_chars \<le> hard_max\<close>, every
  chunk that \<open>split_into_chunks\<close> returns has length at most \<open>hard_max\<close>; the call
  returns a list unless \<open>hard_max = 0\<close>, where \<^verbatim>\<open>range\<close> may raise \<^verbatim>\<open>ValueError\<close>.
  The buffer of paragraphs is bounded by \<open>target_chars\<close> only, so the bound needs the
  hypothesis.
\<close>

theorem split_into_chunks_bound:
  assumes "target_chars \<le> hard_max"
  shows "case split_into_chunks text target_chars hard_max min_chars of
           Inl e \<Rightarrow> e = ValueError \<and> hard_max = 0
         | Inr chunks \<Rightarrow> \<forall>c\<in>set chunks. int (length c) \<le> hard_max"
proof (cases "int (length text) \<le> hard_max")
  case True
  then show ?thesis by (simp add: split_into_chunks_def)
next
  case False
  have "buf_ok hard_max [] 0" by (simp add: buf_ok_def)
  from chunk_loop_bound [OF assms _ this, of "[]" min_chars "re_split_nl2 (strip text)"]
  show ?thesis
    using False strip_join_bound [of hard_max]
    by (auto simp: split_into_chunks_def split: sum.splits)
qed


theorem split_into_chunks_bound_witness:
  "(3::int) \<le> 4 \<and>
   split_into_chunks (py ''aa'' @ [NL, NL] @ py ''bbbbbbb'') 3 4 1 = Inr [py ''aa'', py ''bbbb'', py ''bbb''] \<and>
   int (length (py ''aa'')) \<le> 4 \<and> int (length (py ''bbbb'')) \<le> 4 \<and> int (length (py ''bbb'')) \<le> 4"
proof -
  have e: "split_into_chunks (py ''aa'' @ [NL, NL] @ py ''bbbbbbb'') 3 4 1 = Inr [py ''aa'', py ''bbbb'', py ''bbb'']"
    by (simp add: eval_defs upt_rec)
  have h: "(3::int) \<le> 4" by simp
  from split_into_chunks_bound [OF h, of "py ''aa'' @ [NL, NL] @ py ''bbbbbbb''" 1] e h
  show ?thesis by simp
qed

text \<open>
  With \<open>target_chars = 100\<close> and \<open>hard_max = 5\<close> two paragraphs of four characters are
  buffered together and returned as one chunk of ten characters.
\<close>

theorem split_into_chunks_bound_counterexample:
  "split_into_chunks (py ''aaaa'' @ [NL, NL] @ py ''bbbb'') 100 5 0
     = Inr [py ''aaaa'' @ [NL, NL] @ py ''bbbb''] \<and>
   \<not> int (length (py ''aaaa'' @ [NL, NL] @ py ''bbbb'')) \<le> 5"
  by (simp add: eval_defs)

text \<open>
  Claim C2 (reconstruction of the paragraph sequence): the code loses a paragraph where no
  brutal split happens. With \<open>target_chars = hard_max = 3\<close> and \<open>min_chars = 5\<close> the
  text of the three paragraphs \<open>aa\<close>, \<open>bb\<close>, \<open>cc\<close> (none longer than \<open>hard_max\<close>)
  gives the chunks \<open>aa\<close> and \<open>cc\<close>: the buffer holding \<open>bb\<close> is shorter than
  \<open>min_chars\<close> and is overwritten, although the comment at that place says it is merged
  with the next paragraphs. Joining the chunks back gives the paragraphs \<open>aa\<close>, \<open>cc\<close>.
\<close>

theorem split_into_chunks_drops_paragraph:
  "split_into_chunks (py ''aa'' @ [NL, NL] @ py ''bb'' @ [NL, NL] @ py ''cc'') 3 3 5
     = Inr [py ''aa'', py ''cc''] \<and>
   re_split_nl2 (strip (py ''aa'' @ [NL, NL] @ py ''bb'' @ [NL, NL] @ py ''cc''))
     = [py ''aa'', py ''bb'', py ''cc''] \<and>
   re_split_nl2 (strip (join [NL, NL] [py ''aa'', py ''cc''])) = [py ''aa'', py ''cc'']"
  by (simp add: eval_defs)

text \<open>
  With \<open>hard_max = 1\<close> a paragraph of \<open>1 * 3 + 5 = 8\<close> characters is cut into eight
  pieces, not four.
\<close>

theorem brutal_split_exact_counterexample:
  "int (length (py ''aaaaaaaa'')) = 1 * 3 + 5 \<and>
   split_into_chunks (py ''aaaaaaaa'') 1 1 0
     = Inr [py ''a'', py ''a'', py ''a'', py ''a'', py ''a'', py ''a'', py ''a'', py ''a'']"
  by (simp add: eval_defs upt_rec)

lemma range0_four:
  assumes "5 \<le> h" and "stop = h * 3 + 5"
  shows "py_range0 stop h = Inr [0, h, 2 * h, 3 * h]"
proof -
  have "stop - 1 = 4 + 3 * h" using assms(2) by simp
  moreover have "(4 + 3 * h) div h = 3 + 4 div h" using assms(1) by simp
  moreover have "4 div h = 0" using assms(1) by (simp add: div_pos_pos_trivial)
  ultimately have n: "nat ((stop - 1) div h + 1) = 4" by simp
  have four: "[0..<4] = [0, 1, 2, 3]" by (simp add: upt_rec)
  have pos: "0 < h" "0 < stop" "h \<noteq> 0" using assms by auto
  show ?thesis unfolding py_range0_def n four using pos by simp
qed

text \<open>
  Claim C5 (brutal-split exactness), as amended: for \<open>hard_max \<ge> 5\<close>, a text of length
  \<open>hard_max * 3 + 5\<close> that is a single paragraph (the paragraph split of the stripped text
  is the text itself) and does not fit the buffer (\<open>target_chars < len(text) + 2\<close>) is
  returned as exactly four chunks: three of length \<open>hard_max\<close> and a last one of length 5,
  which concatenate to the text.
\<close>

theorem brutal_split_exact:
  assumes h5: "5 \<le> hard_max"
    and len: "int (length text) = hard_max * 3 + 5"
    and para: "re_split_nl2 (strip text) = [text]"
    and tgt: "target_chars < int (length text) + 2"
  shows "\<exists>a b c d. split_into_chunks text target_chars hard_max min_chars = Inr [a, b, c, d] \<and>
           int (length a) = hard_max \<and> int (length b) = hard_max \<and>
           int (length c) = hard_max \<and> length d = 5 \<and> a @ b @ c @ d = text"
proof -
  let ?h = "nat hard_max"
  have big: "\<not> int (length text) \<le> hard_max" using h5 len by simp
  have L: "length text = 3 * ?h + 5" using h5 len by (simp add: nat_eq_iff)
  have s0: "py_slice text 0 (0 + hard_max) = take ?h text"
    using h5 L by (simp add: py_slice_def slice_bound_def)
  have s1: "py_slice text hard_max (hard_max + hard_max) = take ?h (drop ?h text)"
    using h5 L by (simp add: py_slice_def slice_bound_def)
  have s2: "py_slice text (2 * hard_max) (2 * hard_max + hard_max) = take ?h (drop (2 * ?h) text)"
    using h5 L by (simp add: py_slice_def slice_bound_def nat_mult_distrib)
  have s3: "py_slice text (3 * hard_max) (3 * hard_max + hard_max) = drop (3 * ?h) text"
    using h5 L by (simp add: py_slice_def slice_bound_def nat_mult_distrib)
  have br: "brutal_split text hard_max =
      Inr [take ?h text, take ?h (drop ?h text), take ?h (drop (2 * ?h) text), drop (3 * ?h) text]"
    unfolding brutal_split_def range0_four [OF h5 len] using s0 s1 s2 s3 by simp
  have "split_into_chunks text target_chars hard_max min_chars =
      Inr [take ?h text, take ?h (drop ?h text), take ?h (drop (2 * ?h) text), drop (3 * ?h) text]"
    using big tgt br by (simp add: split_into_chunks_def para flush_buf_def)
  moreover have "take ?h text @ take ?h (drop ?h text) @ take ?h (drop (2 * ?h) text) @ drop (3 * ?h) text = text"
  proof -
    have "take ?h (drop (2 * ?h) text) @ drop (3 * ?h) text = drop (2 * ?h) text"
      using append_take_drop_id [of ?h "drop (2 * ?h) text"] by (simp add: add.commute)
    moreover have "take ?h (drop ?h text) @ drop (2 * ?h) text = drop ?h text"
      using append_take_drop_id [of ?h "drop ?h text"] by (simp add: mult_2)
    ultimately show ?thesis by simp
  qed
  moreover have "int (length (take ?h text)) = hard_max" using h5 L by simp
  moreover have "int (length (take ?h (drop ?h text))) = hard_max" using h5 L by simp
  moreover have "int (length (take ?h (drop (2 * ?h) text))) = hard_max" using h5 L by simp
  moreover have "length (drop (3 * ?h) text) = 5" using L by simp
  ultimately show ?thesis by blast
qed

theorem brutal_split_exact_witness:
  "(5::int) \<le> 5 \<and> int (length (py ''aaaaabbbbbcccccddddd'')) = 5 * 3 + 5 \<and>
   re_split_nl2 (strip (py ''aaaaabbbbbcccccddddd'')) = [py ''aaaaabbbbbcccccddddd''] \<and>
   (7::int) < int (length (py ''aaaaabbbbbcccccddddd'')) + 2 \<and>
   (\<exists>a b c d. split_into_chunks (py ''aaaaabbbbbcccccddddd'') 7 5 0 = Inr [a, b, c, d] \<and>
      int (length a) = 5 \<and> int (length b) = 5 \<and> int (length c) = 5 \<and> length d = 5 \<and>
      a @ b @ c @ d = py ''aaaaabbbbbcccccddddd'')"
proof -
  have h5: "(5::int) \<le> 5" by simp
  have len: "int (length (py ''aaaaabbbbbcccccddddd'')) = 5 * 3 + 5" by (simp add: py_def)
  have para: "re_split_nl2 (strip (py ''aaaaabbbbbcccccddddd'')) = [py ''aaaaabbbbbcccccddddd'']"
    by (simp add: py_def strip_def is_space_def NL_def)
  have tgt: "(7::int) < int (length (py ''aaaaabbbbbcccccddddd'')) + 2" by (simp add: py_def)
  from brutal_split_exact [OF h5 len para tgt, of 0] h5 len para tgt show ?thesis by simp
qed

text \<open>
  Claim C6 (single-chunk passthrough): a text whose length is at most \<open>hard_max\<close> comes
  back as exactly one chunk, equal to the text.
\<close>

theorem split_into_chunks_passthrough:
  "int (length text) \<le> hard_max \<Longrightarrow>
     split_into_chunks text target_chars hard_max min_chars = Inr [text]"
  by (simp add: split_into_chunks_def)

theorem split_into_chunks_passthrough_witness:
  "int (length (py ''hello'')) \<le> 5 \<and> split_into_chunks (py ''hello'') 3 5 1 = Inr [py ''hello'']"
  using split_into_chunks_passthrough [of "py ''hello''" 5 3 1] by (simp add: py_def)
section \<open>Properties of text normalization\<close>

lemma sub_crlf_no_cr: "CR \<notin> set (sub_crlf s)"
  by (induction s rule: sub_crlf.induct) (auto simp: CR_def NL_def)

lemma sub_crlf_id: "CR \<notin> set s \<Longrightarrow> sub_crlf s = s"
  by (induction s rule: sub_crlf.induct) auto

lemma set_collapse_blanks: "set (collapse_blanks s) \<subseteq> insert SP (set s)"
proof (induction s rule: collapse_blanks.induct)
  case 1
  then show ?case by simp
next
  case (2 c cs)
  then show ?case using set_dropWhileD [of _ is_blank cs] by (auto split: if_splits)
qed

lemma set_collapse_newlines: "set (collapse_newlines s) \<subseteq> set s"
proof (induction s rule: collapse_newlines.induct)
  case 1
  then show ?case by simp
next
  case (2 c cs)
  show ?case
  proof (cases "c = NL")
    case True
    have "set (takeWhile (\<lambda>x. x = NL) cs) \<subseteq> set cs" by (auto dest: set_takeWhileD)
    moreover have "set (dropWhile (\<lambda>x. x = NL) cs) \<subseteq> set cs" by (auto dest: set_dropWhileD)
    ultimately show ?thesis using 2(1) [OF True refl refl] True by (auto simp: Let_def)
  next
    case False
    then show ?thesis using 2(2) by auto
  qed
qed

lemma strip_decomp: "\<exists>pre post. s = pre @ strip s @ post"
proof -
  let ?t = "dropWhile is_space s"
  have "s = takeWhile is_space s @ ?t" by simp
  moreover have "rev ?t = takeWhile is_space (rev ?t) @ dropWhile is_space (rev ?t)" by simp
  then have "?t = strip s @ rev (takeWhile is_space (rev ?t))"
    unfolding strip_def by (metis rev_append rev_rev_ident)
  ultimately show ?thesis by metis
qed

lemma set_strip: "set (strip s) \<subseteq> set s"
proof -
  obtain pre post where "s = pre @ strip s @ post" using strip_decomp by blast
  then have "set s = set pre \<union> set (strip s) \<union> set post" by (metis set_append Un_assoc)
  then show ?thesis by blast
qed

lemma strip_fix:
  assumes "s = [] \<or> (\<not> is_space (hd s) \<and> \<not> is_space (last s))"
  shows "strip s = s"
proof (cases s)
  case Nil
  then show ?thesis by (simp add: strip_def)
next
  case (Cons a as)
  with assms have h: "\<not> is_space (hd s)" "\<not> is_space (last s)" by auto
  from h(1) Cons have d: "dropWhile is_space s = s" by simp
  have "hd (rev s) = last s" by (rule hd_rev)
  with h(2) have "dropWhile is_space (rev s) = rev s"
    by (simp only: dropWhile_eq_self_iff) simp
  with d show ?thesis by (simp add: strip_def)
qed

lemma strip_ends: "strip s = [] \<or> (\<not> is_space (hd (strip s)) \<and> \<not> is_space (last (strip s)))"
proof (cases "strip s = []")
  case True
  then show ?thesis by simp
next
  case False
  let ?t = "dropWhile is_space s"
  let ?u = "dropWhile is_space (rev ?t)"
  from False have u: "?u \<noteq> []" by (simp add: strip_def)
  then have l: "\<not> is_space (hd ?u)" by (rule hd_dropWhile)
  have t: "?t \<noteq> []" using u by (metis dropWhile.simps(1) rev.simps(1))
  then have ht: "\<not> is_space (hd ?t)" by (rule hd_dropWhile)
  have "last (strip s) = hd ?u" using u by (simp add: strip_def last_rev)
  moreover have "hd (strip s) = hd ?t"
  proof -
    obtain post where "?t = strip s @ post"
      by (metis strip_def takeWhile_dropWhile_id rev_append rev_rev_ident)
    with False show ?thesis by (metis hd_append2)
  qed
  ultimately show ?thesis using l ht by simp
qed

lemma strip_idem: "strip (strip s) = strip s"
  by (rule strip_fix [OF strip_ends])


lemma blank_ok_append: "blank_ok (a @ b) \<Longrightarrow> blank_ok a \<and> blank_ok b"
  by (induction a) (auto simp: hd_append split: if_splits)

lemma blank_ok_strip: "blank_ok s \<Longrightarrow> blank_ok (strip s)"
proof -
  assume a: "blank_ok s"
  obtain pre post where "s = pre @ strip s @ post" using strip_decomp by blast
  with a have "blank_ok (pre @ strip s @ post)" by simp
  then show ?thesis using blank_ok_append by blast
qed

lemma collapse_blanks_hd:
  "cs = [] \<or> \<not> is_blank (hd cs) \<Longrightarrow> collapse_blanks cs = [] \<or> \<not> is_blank (hd (collapse_blanks cs))"
  by (cases cs) auto

lemma blank_ok_collapse_blanks: "blank_ok (collapse_blanks s)"
proof (induction s rule: collapse_blanks.induct)
  case 1
  then show ?case by simp
next
  case (2 c cs)
  show ?case
  proof (cases "is_blank c")
    case True
    let ?r = "dropWhile is_blank cs"
    have "?r = [] \<or> \<not> is_blank (hd ?r)" using hd_dropWhile [of is_blank cs] by blast
    from collapse_blanks_hd [OF this] 2(1) [OF True] True show ?thesis by auto
  next
    case False
    with 2(2) show ?thesis by simp
  qed
qed

lemma collapse_blanks_id: "blank_ok s \<Longrightarrow> collapse_blanks s = s"
proof (induction s rule: collapse_blanks.induct)
  case 1
  then show ?case by simp
next
  case (2 c cs)
  show ?case
  proof (cases "is_blank c")
    case True
    with 2(3) have d: "dropWhile is_blank cs = cs" and c: "c = SP" and ok: "blank_ok cs"
      by (auto simp: dropWhile_eq_self_iff)
    from 2(1) [OF True] ok d c True show ?thesis by simp
  next
    case False
    with 2 show ?thesis by simp
  qed
qed

lemma collapse_newlines_Nil: "collapse_newlines s = [] \<longleftrightarrow> s = []"
  by (cases s) (auto simp: Let_def)

lemma collapse_newlines_hd: "s \<noteq> [] \<Longrightarrow> hd (collapse_newlines s) = hd s"
  by (cases s) (auto simp: Let_def)

lemma not_blank_NL: "\<not> is_blank NL"
  by (simp add: is_blank_def NL_def SP_def TAB_def)

lemma blank_ok_NL_run: "blank_ok (replicate n NL @ s) = blank_ok s"
  by (induction n) (auto simp: not_blank_NL)

lemma takeWhile_NL: "takeWhile (\<lambda>x. x = NL) cs = replicate (length (takeWhile (\<lambda>x. x = NL) cs)) NL"
  by (induction cs) auto

lemma blank_ok_dropWhile: "blank_ok s \<Longrightarrow> blank_ok (dropWhile P s)"
  using blank_ok_append [of "takeWhile P s" "dropWhile P s"] by simp

lemma blank_ok_collapse_newlines: "blank_ok s \<Longrightarrow> blank_ok (collapse_newlines s)"
proof (induction s rule: collapse_newlines.induct)
  case 1
  then show ?case by simp
next
  case (2 c cs)
  show ?case
  proof (cases "c = NL")
    case True
    let ?run = "takeWhile (\<lambda>x. x = NL) cs"
    let ?rest = "dropWhile (\<lambda>x. x = NL) cs"
    from 2(3) have "blank_ok cs" by simp
    then have "blank_ok ?rest" by (rule blank_ok_dropWhile)
    from 2(1) [OF True refl refl this] have r: "blank_ok (collapse_newlines ?rest)" .
    have "blank_ok (replicate 2 NL @ collapse_newlines ?rest)"
      and "blank_ok (replicate (Suc (length ?run)) NL @ collapse_newlines ?rest)"
      using r by (simp_all only: blank_ok_NL_run)
    moreover have "NL # ?run = replicate (Suc (length ?run)) NL"
      using takeWhile_NL [of cs] by simp
    moreover have "[NL, NL] = replicate 2 NL" by (simp add: numeral_2_eq_2)
    ultimately show ?thesis using True by (simp add: Let_def)
  next
    case False
    from 2(3) have ok: "blank_ok cs" by simp
    from 2(2) [OF False ok] have r: "blank_ok (collapse_newlines cs)" .
    show ?thesis
    proof (cases "cs = []")
      case True
      with False 2(3) show ?thesis by simp
    next
      case ne: False
      with 2(3) False r show ?thesis
        by (simp add: collapse_newlines_Nil collapse_newlines_hd)
    qed
  qed
qed


lemma length_takeWhile_append_ge:
  "length (takeWhile P a) \<le> length (takeWhile P (a @ b))"
  by (induction a) auto

lemma nl_ok_append: "nl_ok (a @ b) \<Longrightarrow> nl_ok a \<and> nl_ok b"
proof (induction a)
  case Nil
  then show ?case by simp
next
  case (Cons c a)
  then show ?case
    using length_takeWhile_append_ge [of "\<lambda>x. x = NL" a b] by auto
qed

lemma nl_ok_strip: "nl_ok s \<Longrightarrow> nl_ok (strip s)"
proof -
  assume a: "nl_ok s"
  obtain pre post where "s = pre @ strip s @ post" using strip_decomp by blast
  with a have "nl_ok (pre @ strip s @ post)" by simp
  then show ?thesis using nl_ok_append by blast
qed

lemma nl_ok_dropWhile: "nl_ok s \<Longrightarrow> nl_ok (dropWhile P s)"
  using nl_ok_append [of "takeWhile P s" "dropWhile P s"] by simp

lemma takeWhile_NL_run:
  "t = [] \<or> hd t \<noteq> NL \<Longrightarrow> takeWhile (\<lambda>x. x = NL) (replicate k NL @ t) = replicate k NL"
  by (cases t) (auto simp: takeWhile_append)

lemma nl_ok_NL_run:
  "nl_ok t \<Longrightarrow> t = [] \<or> hd t \<noteq> NL \<Longrightarrow> k \<le> 2 \<Longrightarrow> nl_ok (replicate k NL @ t)"
proof (induction k)
  case 0
  then show ?case by simp
next
  case (Suc k)
  then show ?case by (simp add: takeWhile_NL_run)
qed

lemma nl_ok_collapse_newlines: "nl_ok (collapse_newlines s)"
proof (induction s rule: collapse_newlines.induct)
  case 1
  then show ?case by simp
next
  case (2 c cs)
  show ?case
  proof (cases "c = NL")
    case True
    let ?run = "takeWhile (\<lambda>x. x = NL) cs"
    let ?rest = "dropWhile (\<lambda>x. x = NL) cs"
    from 2(1) [OF True refl refl] have r: "nl_ok (collapse_newlines ?rest)" .
    have "?rest = [] \<or> hd ?rest \<noteq> NL" using hd_dropWhile [of "\<lambda>x. x = NL" cs] by blast
    then have h: "collapse_newlines ?rest = [] \<or> hd (collapse_newlines ?rest) \<noteq> NL"
      using collapse_newlines_Nil [of ?rest] collapse_newlines_hd [of ?rest] by metis
    have two: "nl_ok (replicate 2 NL @ collapse_newlines ?rest)"
      by (rule nl_ok_NL_run [OF r h]) simp
    have one: "length ?run < 2 \<Longrightarrow> nl_ok (replicate (Suc (length ?run)) NL @ collapse_newlines ?rest)"
      by (rule nl_ok_NL_run [OF r h]) simp
    have e1: "NL # ?run = replicate (Suc (length ?run)) NL"
      using takeWhile_NL [of cs] by simp
    show ?thesis
    proof (cases "length ?run \<ge> 2")
      case True
      with \<open>c = NL\<close> two show ?thesis by (simp add: Let_def numeral_2_eq_2)
    next
      case False
      then have "length ?run < 2" by simp
      from one [OF this] False \<open>c = NL\<close> e1 show ?thesis
        by (simp add: Let_def)
    qed
  next
    case False
    with 2(2) show ?thesis by simp
  qed
qed

lemma collapse_newlines_id: "nl_ok s \<Longrightarrow> collapse_newlines s = s"
proof (induction s rule: collapse_newlines.induct)
  case 1
  then show ?case by simp
next
  case (2 c cs)
  show ?case
  proof (cases "c = NL")
    case True
    with 2(3) have short: "length (takeWhile (\<lambda>x. x = NL) cs) < 2" and ok: "nl_ok cs" by auto
    from ok have "nl_ok (dropWhile (\<lambda>x. x = NL) cs)" by (rule nl_ok_dropWhile)
    from 2(1) [OF True refl refl this] short True show ?thesis by (simp add: Let_def)
  next
    case False
    with 2 show ?thesis by simp
  qed
qed

text \<open>
  Claim C9 (normalization idempotence): \<open>clean_text\<close> applied twice gives the same text
  as \<open>clean_text\<close> applied once. After one pass the text has no carriage return, every
  blank run is a single space, no newline run is longer than two and both ends are free of
  white space, so each of the four steps of the second pass leaves it unchanged.
\<close>

theorem clean_text_idempotent: "clean_text (clean_text s) = clean_text s"
proof -
  let ?a = "sub_crlf s"
  let ?b = "collapse_blanks ?a"
  let ?c = "collapse_newlines ?b"
  let ?t = "clean_text s"
  have t: "?t = strip ?c" by (simp add: clean_text_def)
  have "CR \<notin> set ?b" using sub_crlf_no_cr [of s] set_collapse_blanks [of ?a]
    by (auto simp: SP_def CR_def)
  then have "CR \<notin> set ?t" using set_collapse_newlines [of ?b] set_strip [of ?c] t by auto
  then have 1: "sub_crlf ?t = ?t" by (rule sub_crlf_id)
  have "blank_ok ?t" unfolding t
    by (intro blank_ok_strip blank_ok_collapse_newlines blank_ok_collapse_blanks)
  then have 2: "collapse_blanks ?t = ?t" by (rule collapse_blanks_id)
  have "nl_ok ?t" unfolding t by (intro nl_ok_strip nl_ok_collapse_newlines)
  then have 3: "collapse_newlines ?t = ?t" by (rule collapse_newlines_id)
  have 4: "strip ?t = ?t" unfolding t by (rule strip_idem)
  show ?thesis
    by (subst (1) clean_text_def) (simp only: 1 2 3 4)
qed

section \<open>Properties of the fetcher\<close>

text \<open>The recursive equation of the retry loop is unfolded by hand, one attempt at a time.\<close>

declare http_get_from.simps [simp del]


lemma http_get_from_spec:
  "1 \<le> a \<Longrightarrow> a \<le> 5 \<Longrightarrow>
   (\<exists>n. a \<le> n \<and> n \<le> 5 \<and>
      snd (http_get_from t a sl) = sl @ map (wait_exponential 1 1 10) [a ..< n] \<and>
      (\<forall>j. a \<le> j \<and> j < n \<longrightarrow> http_failure (t j)) \<and>
      (http_failure (t n) \<longrightarrow> n = 5) \<and>
      fst (http_get_from t a sl) =
        (case http_get_attempt (t n) of Inr r \<Rightarrow> Inr r
         | Inl e \<Rightarrow> if retry_if_http_error e then Inl (RetryError e) else Inl e))"
proof (induction t a sl rule: http_get_from.induct)
  case (1 t a sl)
  show ?case
  proof (cases "http_failure (t a) \<and> a < 5")
    case True
    then obtain s where s: "t a = Response s" "s \<ge> 400"
      by (auto simp: http_failure_def split: outcome.splits)
    have st: "\<not> stop_after_attempt 5 a" using True by (simp add: stop_after_attempt_def)
    have att: "http_get_attempt (t a) = Inl (HttpError s)" using s by (simp add: http_get_attempt_def)
    have rec: "http_get_from t a sl = http_get_from t (Suc a) (sl @ [wait_exponential 1 1 10 a])"
      using att st by (subst http_get_from.simps) simp
    from True have "1 \<le> Suc a" "Suc a \<le> 5" by auto
    from "1.IH" [OF att _ st this] obtain n where n:
      "Suc a \<le> n" "n \<le> 5"
      "snd (http_get_from t (Suc a) (sl @ [wait_exponential 1 1 10 a])) =
         (sl @ [wait_exponential 1 1 10 a]) @ map (wait_exponential 1 1 10) [Suc a ..< n]"
      "\<forall>j. Suc a \<le> j \<and> j < n \<longrightarrow> http_failure (t j)"
      "http_failure (t n) \<longrightarrow> n = 5"
      "fst (http_get_from t (Suc a) (sl @ [wait_exponential 1 1 10 a])) =
        (case http_get_attempt (t n) of Inr r \<Rightarrow> Inr r
         | Inl e \<Rightarrow> if retry_if_http_error e then Inl (RetryError e) else Inl e)"
      by auto
    have upt: "[a ..< n] = a # [Suc a ..< n]" using n(1) by (simp add: upt_conv_Cons)
    have fj: "\<forall>j. a \<le> j \<and> j < n \<longrightarrow> http_failure (t j)"
      using n(4) True by (metis Suc_leI le_neq_implies_less)
    show ?thesis
      using n fj upt unfolding rec by (intro exI [of _ n]) simp
  next
    case False
    have "http_get_from t a sl =
        (case http_get_attempt (t a) of Inr r \<Rightarrow> Inr r
         | Inl e \<Rightarrow> if retry_if_http_error e then Inl (RetryError e) else Inl e, sl)"
      using False "1.prems"
      by (subst http_get_from.simps)
         (auto simp: http_failure_def http_get_attempt_def stop_after_attempt_def
               split: outcome.splits)
    moreover have "http_failure (t a) \<longrightarrow> a = 5" using False "1.prems" by auto
    ultimately show ?thesis using "1.prems" by (intro exI [of _ a]) auto
  qed
qed


lemma wait_values:
  "map (wait_exponential 1 1 10) [1 ..< n] = map (\<lambda>k. min 10 (2 ^ k)) [0 ..< n - 1]"
proof -
  have "[1 ..< n] = map Suc [0 ..< n - 1]"
    by (cases n) (simp_all add: map_Suc_upt)
  then show ?thesis by (simp add: wait_exponential_def max_def min_def)
qed

text \<open>
  Claim C4 (retry policy), as amended: \<open>http_get\<close> makes at most 5 attempts; attempt
  \<open>k + 1\<close> is made if and only if \<open>k < 5\<close> and each of the attempts \<open>1..k\<close> ended in a
  response with status 400 or more, the only failure raised as \<^verbatim>\<open>HttpError\<close>; the sleeps
  between attempts are \<open>1, 2, 4, 8\<close> (exponential from 1, capped at 10). A network-level
  failure or any other error of an attempt is not retried: it propagates from that
  attempt, and five HTTP failures end in \<^verbatim>\<open>RetryError\<close>.
\<close>

theorem http_get_retry_policy:
  "attempts_made t \<le> 5 \<and>
   (\<forall>k. 1 \<le> k \<longrightarrow>
      (k < attempts_made t \<longleftrightarrow> k < 5 \<and> (\<forall>j. 1 \<le> j \<and> j \<le> k \<longrightarrow> http_failure (t j)))) \<and>
   snd (http_get t) = map (\<lambda>k. min 10 (2 ^ k)) [0 ..< attempts_made t - 1] \<and>
   fst (http_get t) =
     (case t (attempts_made t) of
        Response s \<Rightarrow> if s \<ge> 400 then Inl (RetryError (HttpError s)) else Inr s
      | NetworkFailure \<Rightarrow> Inl NetworkError
      | MalformedURL \<Rightarrow> Inl OtherError)"
proof -
  from http_get_from_spec [of 1 t "[]"] obtain n where n:
    "1 \<le> n" "n \<le> 5"
    "snd (http_get t) = map (wait_exponential 1 1 10) [1 ..< n]"
    "\<forall>j. 1 \<le> j \<and> j < n \<longrightarrow> http_failure (t j)"
    "http_failure (t n) \<longrightarrow> n = 5"
    "fst (http_get t) =
        (case http_get_attempt (t n) of Inr r \<Rightarrow> Inr r
         | Inl e \<Rightarrow> if retry_if_http_error e then Inl (RetryError e) else Inl e)"
    by (auto simp: http_get_def)
  have a: "attempts_made t = n" using n(1) by (simp add: attempts_made_def n(3))
  have iff: "k < n \<longleftrightarrow> k < 5 \<and> (\<forall>j. 1 \<le> j \<and> j \<le> k \<longrightarrow> http_failure (t j))" if "1 \<le> k" for k
  proof
    assume "k < n"
    with n(2) n(4) show "k < 5 \<and> (\<forall>j. 1 \<le> j \<and> j \<le> k \<longrightarrow> http_failure (t j))" by auto
  next
    assume r: "k < 5 \<and> (\<forall>j. 1 \<le> j \<and> j \<le> k \<longrightarrow> http_failure (t j))"
    show "k < n"
    proof (rule ccontr)
      assume "\<not> k < n"
      then have "n \<le> k" by simp
      with r n(1) have "http_failure (t n)" by blast
      with n(5) have "n = 5" by blast
      with \<open>n \<le> k\<close> r show False by simp
    qed
  qed
  have res: "fst (http_get t) =
     (case t n of
        Response s \<Rightarrow> if s \<ge> 400 then Inl (RetryError (HttpError s)) else Inr s
      | NetworkFailure \<Rightarrow> Inl NetworkError
      | MalformedURL \<Rightarrow> Inl OtherError)"
    unfolding n(6) by (simp add: http_get_attempt_def split: outcome.splits)
  show ?thesis
    unfolding a n(3) wait_values using n(2) iff res by simp
qed

text \<open>
  A network-level failure of the first attempt is not retried, although the second attempt
  would have succeeded: the decorator retries on \<^verbatim>\<open>HttpError\<close> only.
\<close>

theorem http_get_network_failure_counterexample:
  "http_get (\<lambda>k. if k = 1 then NetworkFailure else Response 200) = (Inl NetworkError, [])"
  by (simp add: http_get_def http_get_from.simps [of _ "Suc 0"] http_get_attempt_def)


theorem http_get_retry_policy_witness:
  "http_failure ((\<lambda>k::nat. if k \<le> 2 then Response 503 else Response 200) 1) \<and>
   http_failure ((\<lambda>k::nat. if k \<le> 2 then Response 503 else Response 200) 2) \<and>
   2 < attempts_made (\<lambda>k. if k \<le> 2 then Response 503 else Response 200) \<and>
   http_get (\<lambda>k. if k \<le> 2 then Response 503 else Response 200) = (Inr 200, [1, 2])"
proof -
  let ?t = "\<lambda>k::nat. if k \<le> 2 then Response 503 else Response 200"
  have e: "http_get ?t = (Inr 200, [1, 2])"
    by (simp add: http_get_def http_get_from.simps [of _ "Suc 0"] http_get_from.simps [of _ "Suc (Suc 0)"]
        http_get_from.simps [of _ "Suc (Suc (Suc 0))"]
        http_get_attempt_def stop_after_attempt_def wait_exponential_def)
  have h: "\<forall>j. 1 \<le> j \<and> j \<le> 2 \<longrightarrow> http_failure (?t j)"
    by (simp add: http_failure_def)
  have "(2::nat) < 5" "(1::nat) \<le> 2" by simp_all
  with http_get_retry_policy [of ?t] h have "2 < attempts_made ?t" by blast
  moreover have "http_failure (?t 1)" "http_failure (?t 2)" by (simp_all add: http_failure_def)
  ultimately show ?thesis using e by simp
qed

section \<open>Properties of the exclude globs\<close>

lemma re_escape_Nil: "re_escape [] = []"
  by (simp add: re_escape_def)

lemma re_escape_Cons: "re_escape (c # r) = esc c @ re_escape r"
  by (simp add: re_escape_def esc_def)

lemma special_consts: "re_special STAR" "re_special BSL" "re_special DOT" "re_special 91"
  by (simp_all add: re_special_def STAR_def BSL_def DOT_def)

lemma esc_hd: "hd (esc c) \<noteq> STAR"
  using special_consts(1) by (auto simp: esc_def BSL_def STAR_def)

lemma esc_ne: "esc c \<noteq> []"
  by (simp add: esc_def)

lemma re_escape_hd: "re_escape r = [] \<or> hd (re_escape r) \<noteq> STAR"
  by (cases r) (simp_all add: re_escape_Nil re_escape_Cons esc_ne esc_hd)

lemma re_escape_take2:
  "r = [] \<or> hd r \<noteq> STAR \<Longrightarrow> take 2 (re_escape r) \<noteq> [BSL, STAR]"
  by (cases r) (auto simp: re_escape_Nil re_escape_Cons esc_def special_consts)

lemma replace_match:
  "old \<noteq> [] \<Longrightarrow> replace_str old new (old @ s) = new @ replace_str old new s"
  by (cases old) auto

lemma replace_skip:
  "old \<noteq> [] \<Longrightarrow> take (length old) (c # cs) \<noteq> old \<Longrightarrow>
     replace_str old new (c # cs) = c # replace_str old new cs"
  by simp


lemma py_dotstar: "py ''.*'' = [DOT, STAR]"
  by (simp add: py_def DOT_def STAR_def)

lemma R1_skip:
  assumes "take 4 (c # cs) \<noteq> [BSL, STAR, BSL, STAR]"
  shows "R1 (c # cs) = c # R1 cs"
proof -
  have len: "length [BSL, STAR, BSL, STAR] = 4" by simp
  have "take (length [BSL, STAR, BSL, STAR]) (c # cs) \<noteq> [BSL, STAR, BSL, STAR]"
    unfolding len by (rule assms)
  from replace_skip [OF _ this] show ?thesis unfolding R1_def by blast
qed

lemma R2_skip:
  assumes "take 2 (c # cs) \<noteq> [BSL, STAR]"
  shows "R2 (c # cs) = c # R2 cs"
proof -
  have len: "length [BSL, STAR] = 2" by simp
  have "take (length [BSL, STAR]) (c # cs) \<noteq> [BSL, STAR]"
    unfolding len by (rule assms)
  from replace_skip [OF _ this] show ?thesis unfolding R2_def by blast
qed

lemma R1_Nil: "R1 (re_escape []) = []"
  by (simp add: R1_def re_escape_Nil)

lemma R1_starstar: "R1 (re_escape (STAR # STAR # r)) = DOT # STAR # R1 (re_escape r)"
proof -
  have "re_escape (STAR # STAR # r) = [BSL, STAR, BSL, STAR] @ re_escape r"
    by (simp add: re_escape_Cons esc_def special_consts)
  then show ?thesis
    unfolding R1_def by (simp only: replace_match [OF list.distinct(2)] py_dotstar) simp
qed

lemma R1_star:
  assumes "r = [] \<or> hd r \<noteq> STAR"
  shows "R1 (re_escape (STAR # r)) = BSL # STAR # R1 (re_escape r)"
proof -
  let ?E = "re_escape r"
  have e: "re_escape (STAR # r) = BSL # STAR # ?E"
    by (simp add: re_escape_Cons esc_def special_consts)
  have "take 4 (BSL # STAR # ?E) = BSL # STAR # take 2 ?E"
    by (simp add: numeral_eq_Suc)
  with re_escape_take2 [OF assms] have 1: "take 4 (BSL # STAR # ?E) \<noteq> [BSL, STAR, BSL, STAR]"
    by simp
  have 2: "take 4 (STAR # ?E) \<noteq> [BSL, STAR, BSL, STAR]"
    by (simp add: numeral_eq_Suc BSL_def STAR_def)
  show ?thesis
    unfolding e by (simp only: R1_skip [OF 1] R1_skip [OF 2])
qed

lemma R1_other:
  assumes "c \<noteq> STAR"
  shows "R1 (re_escape (c # r)) = esc c @ R1 (re_escape r)"
proof (cases "re_special c")
  case True
  let ?E = "re_escape r"
  have e: "re_escape (c # r) = BSL # c # ?E" using True by (simp add: re_escape_Cons esc_def)
  have 1: "take 4 (BSL # c # ?E) \<noteq> [BSL, STAR, BSL, STAR]"
    using assms by (simp add: numeral_eq_Suc)
  have 2: "take 4 (c # ?E) \<noteq> [BSL, STAR, BSL, STAR]"
    using re_escape_hd [of r] by (cases ?E) (auto simp: numeral_eq_Suc)
  have "esc c = [BSL, c]" using True by (simp add: esc_def)
  then show ?thesis unfolding e by (simp only: R1_skip [OF 1] R1_skip [OF 2]) simp
next
  case False
  then have "c \<noteq> BSL" using special_consts(2) by auto
  then have 1: "take 4 (c # re_escape r) \<noteq> [BSL, STAR, BSL, STAR]"
    by (simp add: numeral_eq_Suc)
  have "esc c = [c]" using False by (simp add: esc_def)
  then show ?thesis unfolding re_escape_Cons by (simp add: R1_skip [OF 1])
qed

lemma R1_hd: "R1 (re_escape r) = [] \<or> hd (R1 (re_escape r)) \<noteq> STAR"
proof (cases r)
  case Nil
  then show ?thesis by (simp add: R1_Nil)
next
  case (Cons c r')
  show ?thesis
  proof (cases "c = STAR")
    case True
    show ?thesis
    proof (cases "r' = [] \<or> hd r' \<noteq> STAR")
      case True
      from R1_star [OF this] \<open>c = STAR\<close> Cons show ?thesis by (simp add: BSL_def STAR_def)
    next
      case False
      then obtain r'' where "r' = STAR # r''" by (cases r') auto
      with R1_starstar [of r''] \<open>c = STAR\<close> Cons show ?thesis by (simp add: DOT_def STAR_def)
    qed
  next
    case False
    from R1_other [OF this] Cons show ?thesis by (simp add: esc_ne esc_hd)
  qed
qed

lemma glob_to_regex_R: "glob_to_regex pat = R2 (R1 (re_escape pat))"
  by (simp add: glob_to_regex_def R1_def R2_def)

lemma G_Nil: "glob_to_regex [] = []"
  by (simp add: glob_to_regex_R R1_Nil R2_def)

lemma G_starstar: "glob_to_regex (STAR # STAR # r) = DOT # STAR # glob_to_regex r"
proof -
  let ?X = "R1 (re_escape r)"
  have 1: "take 2 (DOT # STAR # ?X) \<noteq> [BSL, STAR]" by (simp add: DOT_def BSL_def)
  have 2: "take 2 (STAR # ?X) \<noteq> [BSL, STAR]" by (simp add: STAR_def BSL_def)
  show ?thesis
    unfolding glob_to_regex_R R1_starstar by (simp only: R2_skip [OF 1] R2_skip [OF 2])
qed

lemma G_star:
  assumes "r = [] \<or> hd r \<noteq> STAR"
  shows "glob_to_regex (STAR # r) = py ''[^/]*'' @ glob_to_regex r"
proof -
  have "R2 ([BSL, STAR] @ R1 (re_escape r)) = py ''[^/]*'' @ R2 (R1 (re_escape r))"
    unfolding R2_def by (rule replace_match) simp
  then show ?thesis unfolding glob_to_regex_R R1_star [OF assms] by simp
qed

lemma G_other:
  assumes "c \<noteq> STAR"
  shows "glob_to_regex (c # r) = esc c @ glob_to_regex r"
proof (cases "re_special c")
  case True
  let ?X = "R1 (re_escape r)"
  have 1: "take 2 (BSL # c # ?X) \<noteq> [BSL, STAR]" using assms by (simp add: numeral_eq_Suc)
  have 2: "take 2 (c # ?X) \<noteq> [BSL, STAR]"
    using R1_hd [of r] by (cases ?X) (auto simp: numeral_eq_Suc)
  have e: "esc c = [BSL, c]" using True by (simp add: esc_def)
  show ?thesis
    unfolding glob_to_regex_R R1_other [OF assms] e
    by (simp add: R2_skip [OF 1] R2_skip [OF 2])
next
  case False
  then have "c \<noteq> BSL" using special_consts(2) by auto
  then have 1: "take 2 (c # R1 (re_escape r)) \<noteq> [BSL, STAR]" by (simp add: numeral_eq_Suc)
  have e: "esc c = [c]" using False by (simp add: esc_def)
  show ?thesis
    unfolding glob_to_regex_R R1_other [OF assms] e by (simp add: R2_skip [OF 1])
qed


lemma chars_neq:
  "DOT \<noteq> BSL" "STAR \<noteq> BSL" "BSL \<noteq> STAR" "BSL \<noteq> DOT" "DOT \<noteq> STAR" "STAR \<noteq> DOT"
  by (simp_all add: DOT_def BSL_def STAR_def)

lemma pieces_Cons:
  "(\<exists>pieces. list_all2 piece_matches (t # ts) pieces \<and> concat pieces = s) \<longleftrightarrow>
   (\<exists>p ps. piece_matches t p \<and> list_all2 piece_matches ts ps \<and> p @ concat ps = s)"
proof
  assume "\<exists>pieces. list_all2 piece_matches (t # ts) pieces \<and> concat pieces = s"
  then obtain pieces where a: "list_all2 piece_matches (t # ts) pieces" "concat pieces = s" by blast
  from a(1) obtain p ps where "pieces = p # ps" "piece_matches t p" "list_all2 piece_matches ts ps"
    by (auto simp: list_all2_Cons1)
  with a(2) show "\<exists>p ps. piece_matches t p \<and> list_all2 piece_matches ts ps \<and> p @ concat ps = s"
    by auto
next
  assume "\<exists>p ps. piece_matches t p \<and> list_all2 piece_matches ts ps \<and> p @ concat ps = s"
  then obtain p ps where "piece_matches t p" "list_all2 piece_matches ts ps" "p @ concat ps = s"
    by blast
  then have "list_all2 piece_matches (t # ts) (p # ps) \<and> concat (p # ps) = s" by simp
  then show "\<exists>pieces. list_all2 piece_matches (t # ts) pieces \<and> concat pieces = s" by blast
qed

lemma pieces_Nil:
  assumes "piece_matches t []"
  shows "(\<exists>pieces. list_all2 piece_matches (t # ts) pieces \<and> concat pieces = []) \<longleftrightarrow>
         (\<exists>ps. list_all2 piece_matches ts ps \<and> concat ps = [])"
proof
  assume "\<exists>pieces. list_all2 piece_matches (t # ts) pieces \<and> concat pieces = []"
  then obtain p ps where "list_all2 piece_matches ts ps" "p @ concat ps = []"
    unfolding pieces_Cons by blast
  then have "list_all2 piece_matches ts ps \<and> concat ps = []" by simp
  then show "\<exists>ps. list_all2 piece_matches ts ps \<and> concat ps = []" by blast
next
  assume "\<exists>ps. list_all2 piece_matches ts ps \<and> concat ps = []"
  then obtain ps where "list_all2 piece_matches ts ps" "concat ps = []" by blast
  with assms have "list_all2 piece_matches (t # ts) ([] # ps) \<and> concat ([] # ps) = []" by simp
  then show "\<exists>pieces. list_all2 piece_matches (t # ts) pieces \<and> concat pieces = []" by blast
qed

lemma special_not_alnum: "re_special c \<Longrightarrow> \<not> is_alnum c"
  by (auto simp: re_special_def is_alnum_def)

lemma parse_dotstar: "parse_rx (DOT # STAR # Y) = map_option (Cons DotStar) (parse_rx Y)"
  by (simp add: DOT_def BSL_def)

lemma parse_notslash: "parse_rx (py ''[^/]*'' @ Y) = map_option (Cons NotSlashStar) (parse_rx Y)"
  by (simp add: py_def DOT_def BSL_def)

lemma parse_esc: "parse_rx (esc c @ Y) = map_option (Cons (Lit c)) (parse_rx Y)"
proof (cases "re_special c")
  case True
  then show ?thesis by (simp add: esc_def special_not_alnum)
next
  case False
  then have "c \<noteq> BSL" "c \<noteq> DOT" "c \<noteq> 91" using special_consts by auto
  then show ?thesis using False by (simp add: esc_def py_def)
qed

lemma parse_glob_to_regex:
  "parse_rx (glob_to_regex pat) = Some (map item_of (glob_tokens pat))"
proof (induction pat rule: glob_tokens.induct)
  case 1
  then show ?case by (simp add: G_Nil)
next
  case (2 c)
  show ?case
  proof (cases "c = STAR")
    case True
    have "glob_to_regex [STAR] = py ''[^/]*'' @ glob_to_regex []" by (rule G_star) simp
    then show ?thesis using True parse_notslash [of "[]"] by (simp add: G_Nil)
  next
    case False
    from G_other [OF this, of "[]"] False parse_esc [of c "[]"] show ?thesis
      by (simp add: G_Nil)
  qed
next
  case (3 c d r)
  show ?case
  proof (cases "c = STAR")
    case True
    show ?thesis
    proof (cases "d = STAR")
      case dstar: True
      with True 3(1) show ?thesis by (simp add: G_starstar parse_dotstar chars_neq)
    next
      case False
      then have "d # r = [] \<or> hd (d # r) \<noteq> STAR" by simp
      from G_star [OF this] True False 3(2) show ?thesis by (simp add: parse_notslash)
    qed
  next
    case False
    from G_other [OF this, of "d # r"] False 3(3) show ?thesis by (simp add: parse_esc)
  qed
qed

lemma rx_match_pieces:
  "rx_match (map item_of toks) s \<longleftrightarrow>
     (\<exists>pieces. list_all2 piece_matches toks pieces \<and> concat pieces = s)"
proof (induction "map item_of toks" s arbitrary: toks rule: rx_match.induct)
  case (1 s)
  then show ?case by auto
next
  case (2 c r)
  then obtain t ts where "toks = t # ts" "item_of t = Lit c" by auto
  then have t: "toks = GLit c # ts" by (cases t) auto
  show ?case unfolding t pieces_Cons by simp
next
  case (3 c r d ds)
  then obtain t ts where "toks = t # ts" "item_of t = Lit c" "r = map item_of ts" by auto
  then have t: "toks = GLit c # ts" "r = map item_of ts" by (cases t; auto)+
  from 3(1) [OF t(2)] show ?case unfolding t(1) pieces_Cons using t(2) by auto
next
  case (4 r)
  then obtain t ts where "toks = t # ts" "item_of t = DotStar" "r = map item_of ts" by auto
  then have t: "toks = GStarStar # ts" "r = map item_of ts" by (cases t; auto)+
  have "piece_matches GStarStar []" by simp
  from 4(1) [OF t(2)] pieces_Nil [OF this, of ts] show ?case unfolding t(1) using t(2) by simp
next
  case (5 r d ds)
  then obtain t ts where "toks = t # ts" "item_of t = DotStar" "r = map item_of ts" by auto
  then have t: "toks = GStarStar # ts" "r = map item_of ts" by (cases t; auto)+
  have ih1: "rx_match r (d # ds) \<longleftrightarrow>
      (\<exists>pieces. list_all2 piece_matches ts pieces \<and> concat pieces = d # ds)"
    using 5(1) [OF t(2)] t(2) by simp
  have ih2: "rx_match (DotStar # r) ds \<longleftrightarrow>
      (\<exists>p ps. NL \<notin> set p \<and> list_all2 piece_matches ts ps \<and> p @ concat ps = ds)"
    if "d \<noteq> NL"
    using 5(2) [of toks] that t(2) unfolding t(1) pieces_Cons by simp
  show ?case
  proof
    assume "rx_match (map item_of toks) (d # ds)"
    then have "rx_match r (d # ds) \<or> (d \<noteq> NL \<and> rx_match (DotStar # r) ds)" using t by simp
    then show "\<exists>pieces. list_all2 piece_matches toks pieces \<and> concat pieces = d # ds"
    proof
      assume "rx_match r (d # ds)"
      with ih1 obtain ps where "list_all2 piece_matches ts ps" "concat ps = d # ds" by blast
      then have "list_all2 piece_matches toks ([] # ps) \<and> concat ([] # ps) = d # ds"
        using t by simp
      then show ?thesis by blast
    next
      assume a: "d \<noteq> NL \<and> rx_match (DotStar # r) ds"
      with ih2 obtain p ps where "NL \<notin> set p" "list_all2 piece_matches ts ps" "p @ concat ps = ds"
        by blast
      then have "list_all2 piece_matches toks ((d # p) # ps) \<and> concat ((d # p) # ps) = d # ds"
        using t a by simp
      then show ?thesis by blast
    qed
  next
    assume "\<exists>pieces. list_all2 piece_matches toks pieces \<and> concat pieces = d # ds"
    then obtain p ps where p: "NL \<notin> set p" "list_all2 piece_matches ts ps" "p @ concat ps = d # ds"
      unfolding t(1) pieces_Cons by auto
    show "rx_match (map item_of toks) (d # ds)"
    proof (cases p)
      case Nil
      with p ih1 have "rx_match r (d # ds)" by auto
      then show ?thesis using t by simp
    next
      case (Cons e p')
      with p have "d \<noteq> NL" "NL \<notin> set p'" "p' @ concat ps = ds" by auto
      with ih2 p(2) have "d \<noteq> NL \<and> rx_match (DotStar # r) ds" by blast
      then show ?thesis using t by simp
    qed
  qed
next
  case (6 r)
  then obtain t ts where "toks = t # ts" "item_of t = NotSlashStar" "r = map item_of ts" by auto
  then have t: "toks = GStar # ts" "r = map item_of ts" by (cases t; auto)+
  have "piece_matches GStar []" by simp
  from 6(1) [OF t(2)] pieces_Nil [OF this, of ts] show ?case unfolding t(1) using t(2) by simp
next
  case (7 r d ds)
  then obtain t ts where "toks = t # ts" "item_of t = NotSlashStar" "r = map item_of ts" by auto
  then have t: "toks = GStar # ts" "r = map item_of ts" by (cases t; auto)+
  have ih1: "rx_match r (d # ds) \<longleftrightarrow>
      (\<exists>pieces. list_all2 piece_matches ts pieces \<and> concat pieces = d # ds)"
    using 7(1) [OF t(2)] t(2) by simp
  have ih2: "rx_match (NotSlashStar # r) ds \<longleftrightarrow>
      (\<exists>p ps. SLASH \<notin> set p \<and> list_all2 piece_matches ts ps \<and> p @ concat ps = ds)"
    if "d \<noteq> SLASH"
    using 7(2) [of toks] that t(2) unfolding t(1) pieces_Cons by simp
  show ?case
  proof
    assume "rx_match (map item_of toks) (d # ds)"
    then have "rx_match r (d # ds) \<or> (d \<noteq> SLASH \<and> rx_match (NotSlashStar # r) ds)"
      using t by simp
    then show "\<exists>pieces. list_all2 piece_matches toks pieces \<and> concat pieces = d # ds"
    proof
      assume "rx_match r (d # ds)"
      with ih1 obtain ps where "list_all2 piece_matches ts ps" "concat ps = d # ds" by blast
      then have "list_all2 piece_matches toks ([] # ps) \<and> concat ([] # ps) = d # ds"
        using t by simp
      then show ?thesis by blast
    next
      assume a: "d \<noteq> SLASH \<and> rx_match (NotSlashStar # r) ds"
      with ih2 obtain p ps where "SLASH \<notin> set p" "list_all2 piece_matches ts ps" "p @ concat ps = ds"
        by blast
      then have "list_all2 piece_matches toks ((d # p) # ps) \<and> concat ((d # p) # ps) = d # ds"
        using t a by simp
      then show ?thesis by blast
    qed
  next
    assume "\<exists>pieces. list_all2 piece_matches toks pieces \<and> concat pieces = d # ds"
    then obtain p ps where p: "SLASH \<notin> set p" "list_all2 piece_matches ts ps" "p @ concat ps = d # ds"
      unfolding t(1) pieces_Cons by auto
    show "rx_match (map item_of toks) (d # ds)"
    proof (cases p)
      case Nil
      with p ih1 have "rx_match r (d # ds)" by auto
      then show ?thesis using t by simp
    next
      case (Cons e p')
      with p have "d \<noteq> SLASH" "SLASH \<notin> set p'" "p' @ concat ps = ds" by auto
      with ih2 p(2) have "d \<noteq> SLASH \<and> rx_match (NotSlashStar # r) ds" by blast
      then show ?thesis using t by simp
    qed
  qed
qed

text \<open>
  Claim C8 (glob matcher), as amended: the regular expression built for a pattern is always
  one that \<open>re_fullmatch\<close> reads, and it matches a path exactly when the whole path is a
  concatenation of one piece per token of the pattern, where \<^verbatim>\<open>**\<close> stands for any sequence
  of characters other than the newline (path separators included), \<^verbatim>\<open>*\<close> for any
  sequence without a path separator, and every other character for itself. The path is
  skipped exactly when one of the configured patterns matches it in this sense.
\<close>

theorem glob_fullmatch:
  "re_fullmatch (glob_to_regex pat) path = Some (glob_matches pat path) \<and>
   (path_skipped pats path \<longleftrightarrow> (\<exists>p \<in> set pats. glob_matches p path))"
proof -
  have one: "re_fullmatch (glob_to_regex p) path = Some (glob_matches p path)" for p
    by (simp add: re_fullmatch_def parse_glob_to_regex rx_match_pieces glob_matches_def)
  have "path_skipped pats path \<longleftrightarrow> (\<exists>p \<in> set pats. glob_matches p path)"
    by (induction pats) (simp_all add: one)
  with one show ?thesis by blast
qed

text \<open>
  The pattern \<^verbatim>\<open>**\<close> does not match the path \<^verbatim>\<open>a\nb\<close>: the translation is \<^verbatim>\<open>.*\<close>
  and the dot does not match a newline.
\<close>

theorem glob_newline_counterexample:
  "re_fullmatch (glob_to_regex [STAR, STAR]) (py ''a'' @ [NL] @ py ''b'') = Some False \<and>
   glob_tokens [STAR, STAR] = [GStarStar]"
  by (simp add: re_fullmatch_def glob_to_regex_def re_escape_def re_special_def py_def
      BSL_def STAR_def DOT_def NL_def SLASH_def is_alnum_def)

section \<open>Properties of URL discovery\<close>

lemma scan_locs_inv:
  "scan_locs base seen locs (tv, found) = (tv', found') \<Longrightarrow> finite found \<Longrightarrow>
     (\<forall>u\<in>found. is_docs_url u base) \<Longrightarrow> finite found' \<and> (\<forall>u\<in>found'. is_docs_url u base)"
proof (induction locs arbitrary: tv found)
  case Nil
  then show ?case by simp
next
  case (Cons loc locs)
  show ?case
  proof (cases "endswith loc (py ''.xml'') \<or> endswith loc (py ''.xml.gz'')")
    case True
    show ?thesis
    proof (cases "loc \<in> seen")
      case False
      with True Cons.prems(1) have "scan_locs base seen locs (tv @ [loc], found) = (tv', found')"
        by simp
      from Cons.IH [OF this Cons.prems(2,3)] show ?thesis .
    next
      case seen: True
      with True Cons.prems(1) have "scan_locs base seen locs (tv, found) = (tv', found')"
        by simp
      from Cons.IH [OF this Cons.prems(2,3)] show ?thesis .
    qed
  next
    case False
    show ?thesis
    proof (cases "is_docs_url loc base")
      case True
      with False Cons.prems(1) have s: "scan_locs base seen locs (tv, insert loc found) = (tv', found')"
        by simp
      have "finite (insert loc found)" using Cons.prems(2) by simp
      moreover have "\<forall>u\<in>insert loc found. is_docs_url u base" using True Cons.prems(3) by simp
      ultimately show ?thesis using Cons.IH [OF s] by blast
    next
      case nd: False
      with False Cons.prems(1) have "scan_locs base seen locs (tv, found) = (tv', found')"
        by simp
      from Cons.IH [OF this Cons.prems(2,3)] show ?thesis .
    qed
  qed
qed


lemma sitemap_loop_inv:
  assumes "sitemap_loop w base tv seen found = Some found'"
    and "finite found" and "\<forall>u\<in>found. is_docs_url u base"
  shows "finite found' \<and> (\<forall>u\<in>found'. is_docs_url u base)"
  using assms(2,3)
proof (induction rule: sitemap_loop.raw_induct [OF _ assms(1)])
  case (1 loop w base tv seen found found')
  show ?case
  proof (cases tv)
    case Nil
    with 1(2) have "found' = found" by simp
    with 1(3,4) show ?thesis by simp
  next
    case (Cons sm rest)
    show ?thesis
    proof (cases "sm \<in> seen")
      case True
      with 1(2) Cons have "loop w base rest seen found = Some found'" by simp
      from 1(1) [OF this 1(3,4)] show ?thesis .
    next
      case False
      show ?thesis
      proof (cases "sitemap_locs w sm")
        case None
        with 1(2) Cons False
        have "loop w base rest (insert sm seen) found = Some found'" by simp
        from 1(1) [OF this 1(3,4)] show ?thesis .
      next
        case (Some locs)
        obtain tv' found1 where sc: "scan_locs base (insert sm seen) locs (rest, found) = (tv', found1)"
          by (cases "scan_locs base (insert sm seen) locs (rest, found)") auto
        from scan_locs_inv [OF sc 1(3) 1(4)]
        have f1: "finite found1" "\<forall>u\<in>found1. is_docs_url u base" by auto
        from 1(2) Cons False Some sc
        have "loop w base tv' (insert sm seen) found1 = Some found'" by simp
        from 1(1) [OF this f1] show ?thesis .
      qed
    qed
  qed
qed


text \<open>
  The two work-queue loops against the reachable sets. The invariant of a loop: queue and
  visited set are reachable, the successors of a visited element are visited or queued, so
  are the start elements, and the result set is what the visited elements contribute. The
  number of reachable elements not yet visited decreases with every element that is new,
  and the queue gets shorter with every other one.
\<close>

lemma scan_locs_eq:
  "scan_locs base seen locs (tv, found) =
     (tv @ filter (\<lambda>l. (endswith l (py ''.xml'') \<or> endswith l (py ''.xml.gz'')) \<and> l \<notin> seen) locs,
      found \<union> {l \<in> set locs. \<not> (endswith l (py ''.xml'') \<or> endswith l (py ''.xml.gz'')) \<and>
                  is_docs_url l base})"
proof (induction locs arbitrary: tv found)
  case Nil
  show ?case by simp
next
  case (Cons loc locs)
  show ?case
  proof (cases "endswith loc (py ''.xml'') \<or> endswith loc (py ''.xml.gz'')")
    case True
    then show ?thesis using Cons.IH by auto
  next
    case False
    then show ?thesis using Cons.IH by auto
  qed
qed

lemma enqueue_links_set:
  assumes "page_hrefs w u = Some hrefs"
  shows "set (enqueue_links w base u visited hrefs) = page_links w base u - visited"
  using assms unfolding enqueue_links_def page_links_def full_link_def by auto


lemma crawl_closed:
  assumes "urijoin w base ` set seeds \<subseteq> V"
    and "\<forall>v\<in>V. page_links w base v \<subseteq> V"
  shows "crawl_reachable w base seeds \<subseteq> V"
proof
  fix x assume "x \<in> crawl_reachable w base seeds"
  then show "x \<in> V"
  proof (induction rule: crawl_reachable.induct)
    case (seed s)
    then show ?case using assms(1) by blast
  next
    case (link u v)
    then show ?case using assms(2) by blast
  qed
qed

lemma bfs_loop_total:
  assumes "finite (crawl_reachable w base seeds)"
    and "set dq \<subseteq> crawl_reachable w base seeds"
    and "visited \<subseteq> crawl_reachable w base seeds"
    and "\<forall>v\<in>visited. page_links w base v \<subseteq> visited \<union> set dq"
    and "urijoin w base ` set seeds \<subseteq> visited \<union> set dq"
    and "found = {u. u \<in> visited \<and> page_hrefs w u \<noteq> None \<and> is_docs_url u base}"
  shows "bfs_loop w base dq visited found = Some (crawl_urls w base seeds)"
  using assms(2-6)
proof (induction "card (crawl_reachable w base seeds - visited)" arbitrary: dq visited found
    rule: less_induct)
  case less
  let ?T = "crawl_reachable w base seeds"
  note fin = assms(1)
  show ?case using less.prems
  proof (induction dq)
    case Nil
    then have "urijoin w base ` set seeds \<subseteq> visited"
      and "\<forall>v\<in>visited. page_links w base v \<subseteq> visited" by simp_all
    then have "?T \<subseteq> visited" by (rule crawl_closed)
    with Nil.prems(2) have "visited = ?T" by blast
    with Nil.prems(5) have "found = crawl_urls w base seeds" by (simp add: crawl_urls_def)
    then show ?case by (simp add: bfs_loop.simps)
  next
    case (Cons u rest)
    from Cons.prems(1) have uT: "u \<in> ?T" and rT: "set rest \<subseteq> ?T" by simp_all
    show ?case
    proof (cases "u \<in> visited")
      case True
      have e: "bfs_loop w base (u # rest) visited found = bfs_loop w base rest visited found"
        using True by (subst bfs_loop.simps) simp
      have p4: "\<forall>v\<in>visited. page_links w base v \<subseteq> visited \<union> set rest"
        using Cons.prems(3) True by auto
      have p5: "urijoin w base ` set seeds \<subseteq> visited \<union> set rest"
        using Cons.prems(4) True by auto
      from Cons.IH [OF rT Cons.prems(2) p4 p5 Cons.prems(5)] e show ?thesis by simp
    next
      case False
      let ?V = "insert u visited"
      have VT: "?V \<subseteq> ?T" using uT Cons.prems(2) by simp
      have "?T - ?V \<subset> ?T - visited" using uT False by blast
      moreover have "finite (?T - visited)" using fin by simp
      ultimately have c: "card (?T - ?V) < card (?T - visited)" by (rule psubset_card_mono [rotated])
      show ?thesis
      proof (cases "page_hrefs w u")
        case None
        have e: "bfs_loop w base (u # rest) visited found = bfs_loop w base rest ?V found"
          using False None by (subst bfs_loop.simps) simp
        have pl: "page_links w base u = {}" using None by (simp add: page_links_def)
        have p4: "\<forall>v\<in>?V. page_links w base v \<subseteq> ?V \<union> set rest"
          using Cons.prems(3) pl by auto
        have p5: "urijoin w base ` set seeds \<subseteq> ?V \<union> set rest"
          using Cons.prems(4) by auto
        have p6: "found = {x. x \<in> ?V \<and> page_hrefs w x \<noteq> None \<and> is_docs_url x base}"
          using Cons.prems(5) None by auto
        from less.hyps [OF c rT VT p4 p5 p6] e show ?thesis by simp
      next
        case (Some hrefs)
        let ?new = "enqueue_links w base u ?V hrefs"
        let ?f = "if is_docs_url u base then insert u found else found"
        have e: "bfs_loop w base (u # rest) visited found = bfs_loop w base (rest @ ?new) ?V ?f"
          using False Some by (subst bfs_loop.simps) simp
        have ns: "set ?new = page_links w base u - ?V" using Some by (rule enqueue_links_set)
        have "page_links w base u \<subseteq> ?T"
          using uT crawl_reachable.link by blast
        with ns rT have p2: "set (rest @ ?new) \<subseteq> ?T" by auto
        have p4: "\<forall>v\<in>?V. page_links w base v \<subseteq> ?V \<union> set (rest @ ?new)"
        proof
          fix v assume "v \<in> ?V"
          then consider "v = u" | "v \<in> visited" by blast
          then show "page_links w base v \<subseteq> ?V \<union> set (rest @ ?new)"
          proof cases
            case 1
            then show ?thesis using ns by auto
          next
            case 2
            with Cons.prems(3) have "page_links w base v \<subseteq> visited \<union> set (u # rest)" by blast
            then show ?thesis by auto
          qed
        qed
        have p5: "urijoin w base ` set seeds \<subseteq> ?V \<union> set (rest @ ?new)"
          using Cons.prems(4) by auto
        have p6: "?f = {x. x \<in> ?V \<and> page_hrefs w x \<noteq> None \<and> is_docs_url x base}"
          using Cons.prems(5) Some by auto
        from less.hyps [OF c p2 VT p4 p5 p6] e show ?thesis by simp
      qed
    qed
  qed
qed


lemma sitemap_closed:
  assumes "set (robots_sitemaps w base) \<union> urijoin w base ` set SITEMAP_CANDIDATES \<subseteq> V"
    and "\<forall>v\<in>V. nested_sitemaps w v \<subseteq> V"
  shows "sitemap_reachable w base \<subseteq> V"
proof
  fix x assume "x \<in> sitemap_reachable w base"
  then show "x \<in> V"
  proof (induction rule: sitemap_reachable.induct)
    case (robots sm)
    then show ?case using assms(1) by blast
  next
    case (candidate c)
    then show ?case using assms(1) by blast
  next
    case (nested sm loc)
    then show ?case using assms(2) by blast
  qed
qed

lemma sitemap_loop_total:
  assumes "finite (sitemap_reachable w base)"
    and "set tv \<subseteq> sitemap_reachable w base"
    and "seen \<subseteq> sitemap_reachable w base"
    and "\<forall>v\<in>seen. nested_sitemaps w v \<subseteq> seen \<union> set tv"
    and "set (robots_sitemaps w base) \<union> urijoin w base ` set SITEMAP_CANDIDATES \<subseteq> seen \<union> set tv"
    and "found = {loc. \<exists>sm. sm \<in> seen \<and> loc \<in> sitemap_entries w base sm}"
  shows "sitemap_loop w base tv seen found = Some (sitemap_urls w base)"
  using assms(2-6)
proof (induction "card (sitemap_reachable w base - seen)" arbitrary: tv seen found
    rule: less_induct)
  case less
  let ?T = "sitemap_reachable w base"
  let ?I = "set (robots_sitemaps w base) \<union> urijoin w base ` set SITEMAP_CANDIDATES"
  note fin = assms(1)
  show ?case using less.prems
  proof (induction tv)
    case Nil
    then have "?I \<subseteq> seen"
      and "\<forall>v\<in>seen. nested_sitemaps w v \<subseteq> seen" by simp_all
    then have "?T \<subseteq> seen" by (rule sitemap_closed)
    with Nil.prems(2) have "seen = ?T" by blast
    with Nil.prems(5) have "found = sitemap_urls w base" by (simp add: sitemap_urls_def)
    then show ?case by (simp add: sitemap_loop.simps)
  next
    case (Cons sm rest)
    from Cons.prems(1) have uT: "sm \<in> ?T" and rT: "set rest \<subseteq> ?T" by simp_all
    show ?case
    proof (cases "sm \<in> seen")
      case True
      have e: "sitemap_loop w base (sm # rest) seen found = sitemap_loop w base rest seen found"
        using True by (subst sitemap_loop.simps) simp
      have p4: "\<forall>v\<in>seen. nested_sitemaps w v \<subseteq> seen \<union> set rest"
        using Cons.prems(3) True by auto
      have p5: "?I \<subseteq> seen \<union> set rest"
        using Cons.prems(4) True by auto
      from Cons.IH [OF rT Cons.prems(2) p4 p5 Cons.prems(5)] e show ?thesis by simp
    next
      case False
      let ?V = "insert sm seen"
      have VT: "?V \<subseteq> ?T" using uT Cons.prems(2) by simp
      have "?T - ?V \<subset> ?T - seen" using uT False by blast
      moreover have "finite (?T - seen)" using fin by simp
      ultimately have c: "card (?T - ?V) < card (?T - seen)" by (rule psubset_card_mono [rotated])
      show ?thesis
      proof (cases "sitemap_locs w sm")
        case None
        have e: "sitemap_loop w base (sm # rest) seen found = sitemap_loop w base rest ?V found"
          using False None by (subst sitemap_loop.simps) simp
        have pl: "nested_sitemaps w sm = {}" "sitemap_entries w base sm = {}"
          using None by (simp_all add: nested_sitemaps_def sitemap_entries_def)
        have p4: "\<forall>v\<in>?V. nested_sitemaps w v \<subseteq> ?V \<union> set rest"
          using Cons.prems(3) pl by auto
        have p5: "?I \<subseteq> ?V \<union> set rest"
          using Cons.prems(4) by auto
        have p6: "found = {loc. \<exists>x. x \<in> ?V \<and> loc \<in> sitemap_entries w base x}"
          using Cons.prems(5) pl by auto
        from less.hyps [OF c rT VT p4 p5 p6] e show ?thesis by simp
      next
        case (Some locs)
        let ?new = "filter (\<lambda>l. (endswith l (py ''.xml'') \<or> endswith l (py ''.xml.gz'')) \<and> l \<notin> ?V) locs"
        let ?f = "found \<union> {l \<in> set locs. \<not> (endswith l (py ''.xml'') \<or> endswith l (py ''.xml.gz'')) \<and>
                  is_docs_url l base}"
        have e: "sitemap_loop w base (sm # rest) seen found = sitemap_loop w base (rest @ ?new) ?V ?f"
          using False Some by (subst sitemap_loop.simps) (simp add: scan_locs_eq)
        have ns: "set ?new = nested_sitemaps w sm - ?V"
          using Some by (auto simp: nested_sitemaps_def)
        have se: "sitemap_entries w base sm = {l \<in> set locs. \<not> (endswith l (py ''.xml'') \<or> endswith l (py ''.xml.gz'')) \<and>
                  is_docs_url l base}"
          using Some by (simp add: sitemap_entries_def)
        have "nested_sitemaps w sm \<subseteq> ?T"
          using uT sitemap_reachable.nested by blast
        with ns rT have p2: "set (rest @ ?new) \<subseteq> ?T" by auto
        have p4: "\<forall>v\<in>?V. nested_sitemaps w v \<subseteq> ?V \<union> set (rest @ ?new)"
        proof
          fix v assume "v \<in> ?V"
          then consider "v = sm" | "v \<in> seen" by blast
          then show "nested_sitemaps w v \<subseteq> ?V \<union> set (rest @ ?new)"
          proof cases
            case 1
            then show ?thesis using ns by auto
          next
            case 2
            with Cons.prems(3) have "nested_sitemaps w v \<subseteq> seen \<union> set (sm # rest)" by blast
            then show ?thesis by auto
          qed
        qed
        have p5: "?I \<subseteq> ?V \<union> set (rest @ ?new)"
          using Cons.prems(4) by auto
        have p6: "?f = {loc. \<exists>x. x \<in> ?V \<and> loc \<in> sitemap_entries w base x}"
          unfolding se [symmetric] using Cons.prems(5) by auto
        from less.hyps [OF c p2 VT p4 p5 p6] e show ?thesis by simp
      qed
    qed
  qed
qed

lemma sitemap_phase_total:
  assumes "finite (sitemap_reachable w (rstrip_slash base0))"
  shows "sitemap_phase w base0 = Some (sitemap_urls w (rstrip_slash base0))"
proof -
  let ?b = "rstrip_slash base0"
  let ?sm = "robots_sitemaps w ?b @ map (urijoin w ?b) SITEMAP_CANDIDATES"
  have s: "set (dedupe seen xs) = set xs - set seen" for seen xs
    by (induction xs arbitrary: seen) auto
  have 1: "set (dedupe [] ?sm) \<subseteq> sitemap_reachable w ?b"
    unfolding s using sitemap_reachable.robots sitemap_reachable.candidate by auto
  have 2: "set (robots_sitemaps w ?b) \<union> urijoin w ?b ` set SITEMAP_CANDIDATES \<subseteq> {} \<union> set (dedupe [] ?sm)"
    unfolding s by auto
  have "sitemap_loop w ?b (dedupe [] ?sm) {} {} = Some (sitemap_urls w ?b)"
    by (rule sitemap_loop_total [OF assms 1 _ _ 2]) simp_all
  then show ?thesis by (simp add: sitemap_phase_def Let_def)
qed

lemma fallback_crawl_total:
  assumes "finite (crawl_reachable w (rstrip_slash base0) seeds)"
  shows "fallback_crawl w base0 seeds {} =
           Some (sorted_list_of_set (crawl_urls w (rstrip_slash base0) seeds))"
proof -
  let ?b = "rstrip_slash base0"
  have 1: "set (map (urijoin w ?b) seeds) \<subseteq> crawl_reachable w ?b seeds"
    using crawl_reachable.seed by auto
  have "bfs_loop w ?b (map (urijoin w ?b) seeds) {} {} = Some (crawl_urls w ?b seeds)"
    by (rule bfs_loop_total [OF assms 1]) simp_all
  then show ?thesis by (simp add: fallback_crawl_def Let_def)
qed

lemma sitemap_urls_finite:
  assumes "finite (sitemap_reachable w base)"
  shows "finite (sitemap_urls w base)"
proof -
  have "sitemap_urls w base = (\<Union>sm\<in>sitemap_reachable w base. sitemap_entries w base sm)"
    by (auto simp: sitemap_urls_def)
  moreover have "finite (sitemap_entries w base sm)" for sm
    by (simp add: sitemap_entries_def split: option.split)
  ultimately show ?thesis using assms by simp
qed

lemma crawl_urls_finite:
  assumes "finite (crawl_reachable w base seeds)"
  shows "finite (crawl_urls w base seeds)"
  using assms by (simp add: crawl_urls_def)

lemma sitemap_phase_inv:
  assumes "sitemap_phase w base0 = Some found"
  shows "finite found \<and> (\<forall>u\<in>found. is_docs_url u (rstrip_slash base0))"
proof -
  from assms have "sitemap_loop w (rstrip_slash base0)
      (dedupe [] (robots_sitemaps w (rstrip_slash base0) @
         map (urijoin w (rstrip_slash base0)) SITEMAP_CANDIDATES)) {} {} = Some found"
    by (simp add: sitemap_phase_def Let_def)
  from sitemap_loop_inv [OF this] show ?thesis by simp
qed

lemma bfs_loop_docs:
  assumes "bfs_loop w base dq visited found = Some found'"
    and "finite found" and "\<forall>u\<in>found. is_docs_url u base"
  shows "finite found' \<and> (\<forall>u\<in>found'. is_docs_url u base)"
  using assms(2,3)
proof (induction rule: bfs_loop.raw_induct [OF _ assms(1)])
  case (1 loop w base dq visited found found')
  show ?case
  proof (cases dq)
    case Nil
    with 1(2) have "found' = found" by simp
    with 1(3,4) show ?thesis by simp
  next
    case (Cons u rest)
    show ?thesis
    proof (cases "u \<in> visited")
      case True
      with 1(2) Cons have "loop w base rest visited found = Some found'" by simp
      from 1(1) [OF this 1(3,4)] show ?thesis .
    next
      case False
      show ?thesis
      proof (cases "page_hrefs w u")
        case None
        with 1(2) Cons False
        have "loop w base rest (insert u visited) found = Some found'" by simp
        from 1(1) [OF this 1(3,4)] show ?thesis .
      next
        case (Some hrefs)
        let ?f = "if is_docs_url u base then insert u found else found"
        from 1(2) Cons False Some
        have l: "loop w base (rest @ enqueue_links w base u (insert u visited) hrefs)
                   (insert u visited) ?f = Some found'" by simp
        have f1: "finite ?f" using 1(3) by simp
        have f2: "\<forall>x\<in>?f. is_docs_url x base" using 1(4) by simp
        from 1(1) [OF l f1 f2] show ?thesis .
      qed
    qed
  qed
qed

lemma discover_doc_urls_sound:
  assumes "discover_doc_urls w base0 seeds = Some urls"
  shows "sorted urls \<and> distinct urls \<and> (\<forall>u\<in>set urls. is_docs_url u (rstrip_slash base0))"
proof -
  from assms obtain found where sp: "sitemap_phase w base0 = Some found"
    by (cases "sitemap_phase w base0") (simp_all add: discover_doc_urls_def)
  from sitemap_phase_inv [OF sp]
  have f: "finite found" and d: "\<forall>u\<in>found. is_docs_url u (rstrip_slash base0)" by auto
  show ?thesis
  proof (cases "found = {}")
    case False
    with assms sp have "urls = sorted_list_of_set found" by (simp add: discover_doc_urls_def)
    with f d show ?thesis by simp
  next
    case True
    with assms sp have "fallback_crawl w base0 seeds {} = Some urls"
      by (simp add: discover_doc_urls_def)
    then obtain found' where
      b: "bfs_loop w (rstrip_slash base0) (map (urijoin w (rstrip_slash base0)) seeds) {} {} = Some found'"
      and u: "urls = sorted_list_of_set found'"
      by (auto simp: fallback_crawl_def Let_def)
    from bfs_loop_docs [OF b] have "finite found'" "\<forall>x\<in>found'. is_docs_url x (rstrip_slash base0)"
      by auto
    with u show ?thesis by simp
  qed
qed

text \<open>
  A loop that ends has visited every reachable element, so that the reachable set is
  finite.
\<close>

lemma bfs_loop_ends:
  assumes "bfs_loop w base dq visited found = Some found'"
    and "finite visited"
    and "\<forall>v\<in>visited. page_links w base v \<subseteq> visited \<union> set dq"
    and "urijoin w base ` set seeds \<subseteq> visited \<union> set dq"
  shows "finite (crawl_reachable w base seeds)"
  using assms(2-4)
proof (induction rule: bfs_loop.raw_induct [OF _ assms(1)])
  case (1 loop w base dq visited found found')
  show ?case
  proof (cases dq)
    case Nil
    with 1(4,5) have "urijoin w base ` set seeds \<subseteq> visited"
      and "\<forall>v\<in>visited. page_links w base v \<subseteq> visited" by simp_all
    then have "crawl_reachable w base seeds \<subseteq> visited" by (rule crawl_closed)
    with 1(3) show ?thesis by (rule finite_subset [rotated])
  next
    case (Cons u rest)
    show ?thesis
    proof (cases "u \<in> visited")
      case True
      with 1(2) Cons have l: "loop w base rest visited found = Some found'" by simp
      have p4: "\<forall>v\<in>visited. page_links w base v \<subseteq> visited \<union> set rest"
        using 1(4) True Cons by auto
      have p5: "urijoin w base ` set seeds \<subseteq> visited \<union> set rest"
        using 1(5) True Cons by auto
      from 1(1) [OF l 1(3) p4 p5] show ?thesis .
    next
      case False
      let ?V = "insert u visited"
      have fV: "finite ?V" using 1(3) by simp
      show ?thesis
      proof (cases "page_hrefs w u")
        case None
        with 1(2) Cons False have l: "loop w base rest ?V found = Some found'" by simp
        have pl: "page_links w base u = {}" using None by (simp add: page_links_def)
        have p4: "\<forall>v\<in>?V. page_links w base v \<subseteq> ?V \<union> set rest"
          using 1(4) pl Cons by auto
        have p5: "urijoin w base ` set seeds \<subseteq> ?V \<union> set rest"
          using 1(5) Cons by auto
        from 1(1) [OF l fV p4 p5] show ?thesis .
      next
        case (Some hrefs)
        let ?new = "enqueue_links w base u ?V hrefs"
        let ?f = "if is_docs_url u base then insert u found else found"
        from 1(2) Cons False Some
        have l: "loop w base (rest @ ?new) ?V ?f = Some found'" by simp
        have ns: "set ?new = page_links w base u - ?V" using Some by (rule enqueue_links_set)
        have p4: "\<forall>v\<in>?V. page_links w base v \<subseteq> ?V \<union> set (rest @ ?new)"
        proof
          fix v assume "v \<in> ?V"
          then consider "v = u" | "v \<in> visited" by blast
          then show "page_links w base v \<subseteq> ?V \<union> set (rest @ ?new)"
          proof cases
            case 1
            then show ?thesis using ns by auto
          next
            case 2
            with \<open>\<forall>v\<in>visited. page_links w base v \<subseteq> visited \<union> set dq\<close> Cons
            have "page_links w base v \<subseteq> visited \<union> set (u # rest)" by blast
            then show ?thesis by auto
          qed
        qed
        have p5: "urijoin w base ` set seeds \<subseteq> ?V \<union> set (rest @ ?new)"
          using 1(5) Cons by auto
        from 1(1) [OF l fV p4 p5] show ?thesis .
      qed
    qed
  qed
qed

lemma sitemap_loop_ends:
  assumes "sitemap_loop w base tv seen found = Some found'"
    and "finite seen"
    and "\<forall>v\<in>seen. nested_sitemaps w v \<subseteq> seen \<union> set tv"
    and "set (robots_sitemaps w base) \<union> urijoin w base ` set SITEMAP_CANDIDATES \<subseteq> seen \<union> set tv"
  shows "finite (sitemap_reachable w base)"
  using assms(2-4)
proof (induction rule: sitemap_loop.raw_induct [OF _ assms(1)])
  case (1 loop w base tv seen found found')
  let ?I = "set (robots_sitemaps w base) \<union> urijoin w base ` set SITEMAP_CANDIDATES"
  show ?case
  proof (cases tv)
    case Nil
    with 1(4,5) have "?I \<subseteq> seen"
      and "\<forall>v\<in>seen. nested_sitemaps w v \<subseteq> seen" by simp_all
    then have "sitemap_reachable w base \<subseteq> seen" by (rule sitemap_closed)
    with 1(3) show ?thesis by (rule finite_subset [rotated])
  next
    case (Cons sm rest)
    show ?thesis
    proof (cases "sm \<in> seen")
      case True
      with 1(2) Cons have l: "loop w base rest seen found = Some found'" by simp
      have p4: "\<forall>v\<in>seen. nested_sitemaps w v \<subseteq> seen \<union> set rest"
        using 1(4) True Cons by auto
      have p5: "?I \<subseteq> seen \<union> set rest"
        using 1(5) True Cons by auto
      from 1(1) [OF l 1(3) p4 p5] show ?thesis .
    next
      case False
      let ?V = "insert sm seen"
      have fV: "finite ?V" using 1(3) by simp
      show ?thesis
      proof (cases "sitemap_locs w sm")
        case None
        with 1(2) Cons False have l: "loop w base rest ?V found = Some found'" by simp
        have pl: "nested_sitemaps w sm = {}" using None by (simp add: nested_sitemaps_def)
        have p4: "\<forall>v\<in>?V. nested_sitemaps w v \<subseteq> ?V \<union> set rest"
          using 1(4) pl Cons by auto
        have p5: "?I \<subseteq> ?V \<union> set rest"
          using 1(5) Cons by auto
        from 1(1) [OF l fV p4 p5] show ?thesis .
      next
        case (Some locs)
        let ?new = "filter (\<lambda>l. (endswith l (py ''.xml'') \<or> endswith l (py ''.xml.gz'')) \<and> l \<notin> ?V) locs"
        let ?f = "found \<union> {l \<in> set locs. \<not> (endswith l (py ''.xml'') \<or> endswith l (py ''.xml.gz'')) \<and>
                  is_docs_url l base}"
        from 1(2) Cons False Some
        have l: "loop w base (rest @ ?new) ?V ?f = Some found'" by (simp add: scan_locs_eq)
        have ns: "set ?new = nested_sitemaps w sm - ?V"
          using Some by (auto simp: nested_sitemaps_def)
        have p4: "\<forall>v\<in>?V. nested_sitemaps w v \<subseteq> ?V \<union> set (rest @ ?new)"
        proof
          fix v assume "v \<in> ?V"
          then consider "v = sm" | "v \<in> seen" by blast
          then show "nested_sitemaps w v \<subseteq> ?V \<union> set (rest @ ?new)"
          proof cases
            case 1
            then show ?thesis using ns by auto
          next
            case 2
            with \<open>\<forall>v\<in>seen. nested_sitemaps w v \<subseteq> seen \<union> set tv\<close> Cons
            have "nested_sitemaps w v \<subseteq> seen \<union> set (sm # rest)" by blast
            then show ?thesis by auto
          qed
        qed
        have p5: "?I \<subseteq> ?V \<union> set (rest @ ?new)"
          using 1(5) Cons by auto
        from 1(1) [OF l fV p4 p5] show ?thesis .
      qed
    qed
  qed
qed

lemma dedupe_set: "set (dedupe seen xs) = set xs - set seen"
  by (induction xs arbitrary: seen) auto

lemma sitemap_phase_ends:
  assumes "sitemap_phase w base0 = Some found"
  shows "finite (sitemap_reachable w (rstrip_slash base0)) \<and>
         found = sitemap_urls w (rstrip_slash base0)"
proof -
  let ?b = "rstrip_slash base0"
  let ?sm = "robots_sitemaps w ?b @ map (urijoin w ?b) SITEMAP_CANDIDATES"
  from assms have l: "sitemap_loop w ?b (dedupe [] ?sm) {} {} = Some found"
    by (simp add: sitemap_phase_def Let_def)
  have 2: "set (robots_sitemaps w ?b) \<union> urijoin w ?b ` set SITEMAP_CANDIDATES \<subseteq> {} \<union> set (dedupe [] ?sm)"
    unfolding dedupe_set by auto
  have f: "finite (sitemap_reachable w ?b)"
    by (rule sitemap_loop_ends [OF l _ _ 2]) simp_all
  from sitemap_phase_total [OF f] assms f show ?thesis by simp
qed

lemma fallback_crawl_ends:
  assumes "fallback_crawl w base0 seeds {} = Some urls"
  shows "finite (crawl_reachable w (rstrip_slash base0) seeds) \<and>
         urls = sorted_list_of_set (crawl_urls w (rstrip_slash base0) seeds)"
proof -
  let ?b = "rstrip_slash base0"
  from assms obtain found' where
    l: "bfs_loop w ?b (map (urijoin w ?b) seeds) {} {} = Some found'"
    by (auto simp: fallback_crawl_def Let_def)
  have f: "finite (crawl_reachable w ?b seeds)"
    by (rule bfs_loop_ends [OF l]) simp_all
  from fallback_crawl_total [OF f] assms f show ?thesis by simp
qed

text \<open>
  Claim C7 (sitemap result or fallback crawl): whenever \<open>discover_doc_urls\<close> returns,
  finitely many sitemaps are reachable and the sitemap phase has yielded exactly the
  allowlisted entries of the reachable sitemaps; if that set is not empty the result is
  that set as a sorted list; if it is empty the result is that of the breadth-first crawl
  over the seed paths: the sorted list of exactly the URLs that are reachable from the
  seeds by following allowlisted links, can be fetched and pass the allowlist. The result
  is sorted, has no repetition and passes the allowlist. Conversely the call returns, with
  these results, when finitely many sitemaps are reachable and, in the case of the crawl,
  finitely many URLs are reachable from the seeds.
\<close>

theorem discover_doc_urls_fallthrough:
  "(\<forall>urls. discover_doc_urls w base0 seeds = Some urls \<longrightarrow>
      finite (sitemap_reachable w (rstrip_slash base0)) \<and>
      sitemap_phase w base0 = Some (sitemap_urls w (rstrip_slash base0)) \<and>
      (sitemap_urls w (rstrip_slash base0) \<noteq> {} \<longrightarrow>
         urls = sorted_list_of_set (sitemap_urls w (rstrip_slash base0)) \<and>
         set urls = sitemap_urls w (rstrip_slash base0)) \<and>
      (sitemap_urls w (rstrip_slash base0) = {} \<longrightarrow>
         finite (crawl_reachable w (rstrip_slash base0) seeds) \<and>
         urls = sorted_list_of_set (crawl_urls w (rstrip_slash base0) seeds) \<and>
         set urls = crawl_urls w (rstrip_slash base0) seeds) \<and>
      sorted urls \<and> distinct urls \<and> (\<forall>u\<in>set urls. is_docs_url u (rstrip_slash base0))) \<and>
   (finite (sitemap_reachable w (rstrip_slash base0)) \<and>
    sitemap_urls w (rstrip_slash base0) \<noteq> {} \<longrightarrow>
      discover_doc_urls w base0 seeds =
        Some (sorted_list_of_set (sitemap_urls w (rstrip_slash base0)))) \<and>
   (finite (sitemap_reachable w (rstrip_slash base0)) \<and>
    sitemap_urls w (rstrip_slash base0) = {} \<and>
    finite (crawl_reachable w (rstrip_slash base0) seeds) \<longrightarrow>
      discover_doc_urls w base0 seeds =
        Some (sorted_list_of_set (crawl_urls w (rstrip_slash base0) seeds)))"
proof -
  let ?b = "rstrip_slash base0"
  have A: "finite (sitemap_reachable w ?b) \<and>
      sitemap_phase w base0 = Some (sitemap_urls w ?b) \<and>
      (sitemap_urls w ?b \<noteq> {} \<longrightarrow>
         urls = sorted_list_of_set (sitemap_urls w ?b) \<and> set urls = sitemap_urls w ?b) \<and>
      (sitemap_urls w ?b = {} \<longrightarrow>
         finite (crawl_reachable w ?b seeds) \<and>
         urls = sorted_list_of_set (crawl_urls w ?b seeds) \<and>
         set urls = crawl_urls w ?b seeds) \<and>
      sorted urls \<and> distinct urls \<and> (\<forall>u\<in>set urls. is_docs_url u ?b)"
    if d: "discover_doc_urls w base0 seeds = Some urls" for urls
  proof -
    from d obtain found where sp: "sitemap_phase w base0 = Some found"
      by (cases "sitemap_phase w base0") (simp_all add: discover_doc_urls_def)
    from sitemap_phase_ends [OF sp]
    have fin: "finite (sitemap_reachable w ?b)" and fe: "found = sitemap_urls w ?b" by simp_all
    from sp fe have sp': "sitemap_phase w base0 = Some (sitemap_urls w ?b)" by simp
    have fs: "finite (sitemap_urls w ?b)" using fin by (rule sitemap_urls_finite)
    have 1: "urls = sorted_list_of_set (sitemap_urls w ?b) \<and> set urls = sitemap_urls w ?b"
      if "sitemap_urls w ?b \<noteq> {}"
      using that sp' d fs by (auto simp: discover_doc_urls_def)
    have 2: "finite (crawl_reachable w ?b seeds) \<and>
         urls = sorted_list_of_set (crawl_urls w ?b seeds) \<and>
         set urls = crawl_urls w ?b seeds"
      if e: "sitemap_urls w ?b = {}"
    proof -
      from sp' e d have "fallback_crawl w base0 seeds {} = Some urls"
        by (simp add: discover_doc_urls_def)
      from fallback_crawl_ends [OF this]
      have fc: "finite (crawl_reachable w ?b seeds)"
        and u: "urls = sorted_list_of_set (crawl_urls w ?b seeds)" by simp_all
      from crawl_urls_finite [OF fc] u fc show ?thesis by simp
    qed
    from discover_doc_urls_sound [OF d]
    have 3: "sorted urls \<and> distinct urls \<and> (\<forall>u\<in>set urls. is_docs_url u ?b)" .
    from fin sp' 1 2 3 show ?thesis by blast
  qed
  have B: "discover_doc_urls w base0 seeds = Some (sorted_list_of_set (sitemap_urls w ?b))"
    if "finite (sitemap_reachable w ?b)" "sitemap_urls w ?b \<noteq> {}"
    using sitemap_phase_total [OF that(1)] that(2) by (simp add: discover_doc_urls_def)
  have C: "discover_doc_urls w base0 seeds = Some (sorted_list_of_set (crawl_urls w ?b seeds))"
    if "finite (sitemap_reachable w ?b)" "sitemap_urls w ?b = {}"
      "finite (crawl_reachable w ?b seeds)"
    using sitemap_phase_total [OF that(1)] that(2) fallback_crawl_total [OF that(3)]
    by (simp add: discover_doc_urls_def)
  from A B C show ?thesis by blast
qed

text \<open>The reachable sets of the two discovery worlds, and the runs on them.\<close>

lemma nested_sitemaps_eval:
  "nested_sitemaps w sm =
     (case sitemap_locs w sm of
        None \<Rightarrow> {}
      | Some locs \<Rightarrow>
          set (filter (\<lambda>loc. endswith loc (py ''.xml'') \<or> endswith loc (py ''.xml.gz'')) locs))"
  by (simp add: nested_sitemaps_def split: option.split)

lemma sitemap_entries_eval:
  "sitemap_entries w base sm =
     (case sitemap_locs w sm of
        None \<Rightarrow> {}
      | Some locs \<Rightarrow>
          set (filter (\<lambda>loc. \<not> (endswith loc (py ''.xml'') \<or> endswith loc (py ''.xml.gz'')) \<and>
                        is_docs_url loc base) locs))"
  by (simp add: sitemap_entries_def split: option.split)

lemma page_links_eval:
  "page_links w base u =
     (case page_hrefs w u of
        None \<Rightarrow> {}
      | Some hrefs \<Rightarrow>
          set (filter (\<lambda>full. is_docs_url full base)
                 (map (\<lambda>href. if startswith href (py ''http'') then href else urijoin w u href)
                    (filter (\<lambda>href. \<not> startswith href (py ''#'')) (map strip hrefs)))))"
  by (auto simp: page_links_def split: option.split)

lemmas site_defs = w0_def w5_def w6_def join_abs_path_def uri_origin_def COLON_def SLASH_def
  py_def SITEMAP_CANDIDATES_def DOC_SECTION_HINTS_def endswith_def is_docs_url_def startswith_def
  nested_sitemaps_eval sitemap_entries_eval page_links_eval strip_def is_space_def

lemma site_base: "rstrip_slash (py ''http://d.io/'') = py ''http://d.io''"
  by (simp add: rstrip_slash_def SLASH_def py_def)

lemma w5_sitemaps:
  "sitemap_reachable w5 (py ''http://d.io'') =
     {py ''http://d.io/maps.xml'', py ''http://d.io/blog/sitemap.xml'',
      py ''http://d.io/sitemap.xml'', py ''http://d.io/sitemap_index.xml'',
      py ''http://d.io/sitemap-index.xml'', py ''http://d.io/sitemap.xml.gz'',
      py ''http://d.io/sitemap_index.xml.gz'', py ''http://d.io/sitemap-index.xml.gz''}"
  (is "?T = ?S")
proof
  show "?T \<subseteq> ?S"
    by (rule sitemap_closed) (simp_all add: site_defs del: set_filter)
  have m: "py ''http://d.io/maps.xml'' \<in> ?T"
    by (rule sitemap_reachable.robots) (simp add: site_defs del: set_filter)
  have n: "py ''http://d.io/blog/sitemap.xml'' \<in> ?T"
    by (rule sitemap_reachable.nested [OF m]) (simp add: site_defs del: set_filter)
  have "urijoin w5 (py ''http://d.io'') ` set SITEMAP_CANDIDATES \<subseteq> ?T"
    using sitemap_reachable.candidate by blast
  then have c: "{py ''http://d.io/sitemap.xml'', py ''http://d.io/sitemap_index.xml'',
      py ''http://d.io/sitemap-index.xml'', py ''http://d.io/sitemap.xml.gz'',
      py ''http://d.io/sitemap_index.xml.gz'', py ''http://d.io/sitemap-index.xml.gz''} \<subseteq> ?T"
    by (simp add: site_defs del: set_filter)
  from m n c show "?S \<subseteq> ?T" by simp
qed


lemma sitemap_urls_Union:
  "sitemap_urls w base = (\<Union>sm\<in>sitemap_reachable w base. sitemap_entries w base sm)"
  by (auto simp: sitemap_urls_def)

lemma crawl_urls_filter:
  assumes "crawl_reachable w base seeds = set xs"
  shows "crawl_urls w base seeds =
           set (filter (\<lambda>u. page_hrefs w u \<noteq> None \<and> is_docs_url u base) xs)"
  using assms by (auto simp: crawl_urls_def)

lemma w6_sitemaps:
  "sitemap_reachable w6 (py ''http://d.io'') =
     {py ''http://d.io/maps.xml'', py ''http://d.io/blog/sitemap.xml'',
      py ''http://d.io/sitemap.xml'', py ''http://d.io/sitemap_index.xml'',
      py ''http://d.io/sitemap-index.xml'', py ''http://d.io/sitemap.xml.gz'',
      py ''http://d.io/sitemap_index.xml.gz'', py ''http://d.io/sitemap-index.xml.gz''}"
  (is "?T = ?S")
proof
  show "?T \<subseteq> ?S"
    by (rule sitemap_closed) (simp_all add: site_defs del: set_filter)
  have m: "py ''http://d.io/maps.xml'' \<in> ?T"
    by (rule sitemap_reachable.robots) (simp add: site_defs del: set_filter)
  have n: "py ''http://d.io/blog/sitemap.xml'' \<in> ?T"
    by (rule sitemap_reachable.nested [OF m]) (simp add: site_defs del: set_filter)
  have "urijoin w6 (py ''http://d.io'') ` set SITEMAP_CANDIDATES \<subseteq> ?T"
    using sitemap_reachable.candidate by blast
  then have c: "{py ''http://d.io/sitemap.xml'', py ''http://d.io/sitemap_index.xml'',
      py ''http://d.io/sitemap-index.xml'', py ''http://d.io/sitemap.xml.gz'',
      py ''http://d.io/sitemap_index.xml.gz'', py ''http://d.io/sitemap-index.xml.gz''} \<subseteq> ?T"
    by (simp add: site_defs del: set_filter)
  from m n c show "?S \<subseteq> ?T" by simp
qed

lemma w5_sitemap_urls: "sitemap_urls w5 (py ''http://d.io'') = {}"
  unfolding sitemap_urls_Union w5_sitemaps by (simp add: site_defs del: set_filter)

lemma w6_sitemap_urls:
  "sitemap_urls w6 (py ''http://d.io'') = {py ''http://d.io/spec/a'', py ''http://d.io/appendix''}"
  unfolding sitemap_urls_Union w6_sitemaps by (simp add: site_defs del: set_filter)

lemma w5_crawl:
  "crawl_reachable w5 (py ''http://d.io'') [py ''/spec'', py ''/intro''] =
     set [py ''http://d.io/spec'', py ''http://d.io/intro'', py ''http://d.io/sdks'',
          py ''http://d.io/appendix'', py ''http://d.io/architecture'']"
  (is "?T = set ?xs")
proof
  show "?T \<subseteq> set ?xs"
    by (rule crawl_closed) (simp_all add: site_defs del: set_filter)
  have "urijoin w5 (py ''http://d.io'') ` set [py ''/spec'', py ''/intro''] \<subseteq> ?T"
    using crawl_reachable.seed by blast
  then have s: "py ''http://d.io/spec'' \<in> ?T" and i: "py ''http://d.io/intro'' \<in> ?T"
    by (simp_all add: site_defs del: set_filter)
  have d: "py ''http://d.io/sdks'' \<in> ?T"
    by (rule crawl_reachable.link [OF s]) (simp add: site_defs del: set_filter)
  have a: "py ''http://d.io/appendix'' \<in> ?T"
    by (rule crawl_reachable.link [OF d]) (simp add: site_defs del: set_filter)
  have r: "py ''http://d.io/architecture'' \<in> ?T"
    by (rule crawl_reachable.link [OF i]) (simp add: site_defs del: set_filter)
  from s i d a r show "set ?xs \<subseteq> ?T" by simp
qed

lemma w5_crawl_urls:
  "crawl_urls w5 (py ''http://d.io'') [py ''/spec'', py ''/intro''] =
     {py ''http://d.io/spec'', py ''http://d.io/sdks'', py ''http://d.io/architecture''}"
  unfolding crawl_urls_filter [OF w5_crawl] by (simp add: site_defs del: set_filter)

lemma sorted_w6:
  "sorted_list_of_set {py ''http://d.io/spec/a'', py ''http://d.io/appendix''} =
     [py ''http://d.io/appendix'', py ''http://d.io/spec/a'']"
  by (simp add: py_def)

lemma sorted_w5:
  "sorted_list_of_set {py ''http://d.io/spec'', py ''http://d.io/sdks'', py ''http://d.io/architecture''} =
     [py ''http://d.io/architecture'', py ''http://d.io/sdks'', py ''http://d.io/spec'']"
  by (simp add: py_def)

theorem discover_doc_urls_fallthrough_witness:
  "finite (sitemap_reachable w6 (rstrip_slash (py ''http://d.io/''))) \<and>
   sitemap_urls w6 (rstrip_slash (py ''http://d.io/'')) =
     {py ''http://d.io/spec/a'', py ''http://d.io/appendix''} \<and>
   discover_doc_urls w6 (py ''http://d.io/'') [py ''/spec'', py ''/intro''] =
     Some [py ''http://d.io/appendix'', py ''http://d.io/spec/a''] \<and>
   finite (sitemap_reachable w5 (rstrip_slash (py ''http://d.io/''))) \<and>
   sitemap_urls w5 (rstrip_slash (py ''http://d.io/'')) = {} \<and>
   finite (crawl_reachable w5 (rstrip_slash (py ''http://d.io/'')) [py ''/spec'', py ''/intro'']) \<and>
   crawl_urls w5 (rstrip_slash (py ''http://d.io/'')) [py ''/spec'', py ''/intro''] =
     {py ''http://d.io/spec'', py ''http://d.io/sdks'', py ''http://d.io/architecture''} \<and>
   discover_doc_urls w5 (py ''http://d.io/'') [py ''/spec'', py ''/intro''] =
     Some [py ''http://d.io/architecture'', py ''http://d.io/sdks'', py ''http://d.io/spec'']"
proof -
  let ?seeds = "[py ''/spec'', py ''/intro'']"
  have f6: "finite (sitemap_reachable w6 (rstrip_slash (py ''http://d.io/'')))"
    unfolding site_base w6_sitemaps by simp
  have u6: "sitemap_urls w6 (rstrip_slash (py ''http://d.io/'')) =
     {py ''http://d.io/spec/a'', py ''http://d.io/appendix''}"
    unfolding site_base by (rule w6_sitemap_urls)
  then have n6: "sitemap_urls w6 (rstrip_slash (py ''http://d.io/'')) \<noteq> {}" by simp
  from discover_doc_urls_fallthrough [of w6 "py ''http://d.io/''" ?seeds] f6 n6
  have "discover_doc_urls w6 (py ''http://d.io/'') ?seeds =
      Some (sorted_list_of_set (sitemap_urls w6 (rstrip_slash (py ''http://d.io/''))))" by blast
  then have d6: "discover_doc_urls w6 (py ''http://d.io/'') ?seeds =
      Some [py ''http://d.io/appendix'', py ''http://d.io/spec/a'']"
    unfolding u6 sorted_w6 .
  have f5: "finite (sitemap_reachable w5 (rstrip_slash (py ''http://d.io/'')))"
    unfolding site_base w5_sitemaps by simp
  have u5: "sitemap_urls w5 (rstrip_slash (py ''http://d.io/'')) = {}"
    unfolding site_base by (rule w5_sitemap_urls)
  have c5: "finite (crawl_reachable w5 (rstrip_slash (py ''http://d.io/'')) ?seeds)"
    unfolding site_base w5_crawl by simp
  have cu5: "crawl_urls w5 (rstrip_slash (py ''http://d.io/'')) ?seeds =
     {py ''http://d.io/spec'', py ''http://d.io/sdks'', py ''http://d.io/architecture''}"
    unfolding site_base by (rule w5_crawl_urls)
  from discover_doc_urls_fallthrough [of w5 "py ''http://d.io/''" ?seeds] f5 u5 c5
  have "discover_doc_urls w5 (py ''http://d.io/'') ?seeds =
      Some (sorted_list_of_set (crawl_urls w5 (rstrip_slash (py ''http://d.io/'')) ?seeds))" by blast
  then have d5: "discover_doc_urls w5 (py ''http://d.io/'') ?seeds =
      Some [py ''http://d.io/architecture'', py ''http://d.io/sdks'', py ''http://d.io/spec'']"
    unfolding cu5 sorted_w5 .
  from f6 u6 d6 f5 u5 c5 cu5 d5 show ?thesis by (intro conjI)
qed
section \<open>Properties of the corpus\<close>

text \<open>The decimal digits of a number are unfolded by hand.\<close>

declare str_nat.simps [simp del]

lemma str_nat_digits: "\<forall>c\<in>set (str_nat n). is_digit c"
proof (induction n rule: str_nat.induct)
  case (1 n)
  show ?case
  proof (cases "n < 10")
    case True
    then show ?thesis by (subst str_nat.simps) (simp add: is_digit_def)
  next
    case False
    have "n mod 10 < 10" by simp
    then have "is_digit (48 + n mod 10)" unfolding is_digit_def by linarith
    with 1 [OF False] False show ?thesis by (subst str_nat.simps) simp
  qed
qed

lemma str_nat_ne: "str_nat n \<noteq> []"
  by (subst str_nat.simps) simp

lemma str_nat_inj: "str_nat n = str_nat m \<Longrightarrow> n = m"
proof (induction n arbitrary: m rule: str_nat.induct)
  case (1 n)
  show ?case
  proof (cases "n < 10")
    case True
    note n = this
    show ?thesis
    proof (cases "m < 10")
      case True
      with n 1(2) show ?thesis by (simp add: str_nat.simps [of n] str_nat.simps [of m])
    next
      case False
      with n 1(2) have "[48 + n] = str_nat (m div 10) @ [48 + m mod 10]"
        by (simp add: str_nat.simps [of n] str_nat.simps [of m])
      then have "str_nat (m div 10) = []" by simp
      with str_nat_ne show ?thesis by blast
    qed
  next
    case False
    note n = this
    show ?thesis
    proof (cases "m < 10")
      case True
      with n 1(2) have "str_nat (n div 10) @ [48 + n mod 10] = [48 + m]"
        by (simp add: str_nat.simps [of n] str_nat.simps [of m])
      then have "str_nat (n div 10) = []" by simp
      with str_nat_ne show ?thesis by blast
    next
      case False
      with n 1(2) have "str_nat (n div 10) @ [48 + n mod 10] = str_nat (m div 10) @ [48 + m mod 10]"
        by (simp add: str_nat.simps [of n] str_nat.simps [of m])
      then have a: "str_nat (n div 10) = str_nat (m div 10)" and b: "n mod 10 = m mod 10" by auto
      from 1(1) [OF n a] have "n div 10 = m div 10" .
      with b show ?thesis by (metis div_mult_mod_eq)
    qed
  qed
qed

lemma digit_suffix:
  assumes "xs @ c # ds = ys @ c' # es"
    and "\<not> is_digit c" "\<not> is_digit c'"
    and "\<forall>d\<in>set ds. is_digit d" "\<forall>d\<in>set es. is_digit d"
  shows "xs = ys \<and> ds = es"
proof -
  have "takeWhile is_digit (rev (xs @ c # ds)) = rev ds"
    using assms(2,4) by (simp add: takeWhile_append2 takeWhile_tail)
  moreover have "takeWhile is_digit (rev (ys @ c' # es)) = rev es"
    using assms(3,5) by (simp add: takeWhile_append2 takeWhile_tail)
  ultimately have "rev ds = rev es" using assms(1) by simp
  then have "ds = es" by simp
  with assms(1) show ?thesis by simp
qed

lemma takeWhile_upto: "c \<notin> set xs \<Longrightarrow> takeWhile (\<lambda>x. x \<noteq> c) (xs @ c # r) = xs"
  by (induction xs) auto

lemma colon_prefix:
  assumes "xs @ COLON # r = ys @ COLON # r'"
    and "COLON \<notin> set xs" "COLON \<notin> set ys"
  shows "xs = ys \<and> r = r'"
proof -
  have "takeWhile (\<lambda>c. c \<noteq> COLON) (xs @ COLON # r) = xs"
    using assms(2) by (rule takeWhile_upto)
  moreover have "takeWhile (\<lambda>c. c \<noteq> COLON) (ys @ COLON # r') = ys"
    using assms(3) by (rule takeWhile_upto)
  ultimately have "xs = ys" using assms(1) by simp
  with assms(1) show ?thesis by simp
qed

lemma chunk_suffix:
  assumes "x @ py ''::chunk-'' @ str_nat a = y @ py ''::chunk-'' @ str_nat b"
  shows "x = y \<and> a = b"
proof -
  have e: "py ''::chunk-'' = py ''::chunk'' @ [45]" by (simp add: py_def)
  have nd: "\<not> is_digit 45" by (simp add: is_digit_def)
  from assms have "(x @ py ''::chunk'') @ 45 # str_nat a = (y @ py ''::chunk'') @ 45 # str_nat b"
    by (simp add: e)
  from digit_suffix [OF this nd nd str_nat_digits str_nat_digits]
  have "x @ py ''::chunk'' = y @ py ''::chunk''" "str_nat a = str_nat b" by auto
  then show ?thesis using str_nat_inj by auto
qed

lemma docs_id_inj: "docs_id u k = docs_id u' k' \<Longrightarrow> u = u' \<and> k = k'"
  using chunk_suffix [of u "Suc k" u' "Suc k'"] by (simp add: docs_id_def)

lemma repo_id_inj_path:
  "repo_id n p s k = repo_id n p' s k' \<Longrightarrow> p = p' \<and> k = k'"
  using chunk_suffix [of "p @ py ''::'' @ take 8 s" "Suc k" "p' @ py ''::'' @ take 8 s" "Suc k'"]
  by (simp add: repo_id_def)

lemma py_colons: "py ''::'' = [COLON, COLON]"
  by (simp add: py_def COLON_def)

lemma repo_id_inj_name:
  assumes "repo_id n p s k = repo_id n' p' s' k'" and "COLON \<notin> set n" "COLON \<notin> set n'"
  shows "n = n'"
proof -
  from assms(1) have "n @ COLON # (COLON # p @ py ''::'' @ take 8 s @ py ''::chunk-'' @ str_nat (k + 1))
      = n' @ COLON # (COLON # p' @ py ''::'' @ take 8 s' @ py ''::chunk-'' @ str_nat (k' + 1))"
    by (simp add: repo_id_def py_colons)
  from colon_prefix [OF this assms(2,3)] show ?thesis by simp
qed

lemma release_id_inj:
  assumes "release_id r m k = release_id r' m' k'" and "COLON \<notin> set r" "COLON \<notin> set r'"
  shows "r = r' \<and> m = m' \<and> k = k'"
proof -
  from assms(1) have "(r @ py ''::'' @ m) @ py ''::chunk-'' @ str_nat (Suc k)
      = (r' @ py ''::'' @ m') @ py ''::chunk-'' @ str_nat (Suc k')"
    by (simp add: release_id_def)
  from chunk_suffix [OF this] have e: "r @ py ''::'' @ m = r' @ py ''::'' @ m'" and k: "k = k'"
    by auto
  from e have "r @ COLON # (COLON # m) = r' @ COLON # (COLON # m')" by (simp add: py_colons)
  from colon_prefix [OF this assms(2,3)] k show ?thesis by simp
qed

lemma id_kinds:
  "docs_id u k \<noteq> repo_id n p s k'" "docs_id u k \<noteq> release_id r m k''"
  "repo_id n p s k' \<noteq> release_id r m k''"
  by (simp_all add: docs_id_def repo_id_def release_id_def py_def)

lemma good_not_short: "good_doc w u \<Longrightarrow> \<not> short_doc w u"
  by (auto simp: good_doc_def short_doc_def)

lemma map_fst_enum: "map (\<lambda>x. f (fst x)) (enumerate n xs) = map f [n..<n + length xs]"
proof -
  have a: "map f (map fst (enumerate n xs)) = map f [n..<n + length xs]"
    by (simp only: map_fst_enumerate)
  have b: "map f (map fst (enumerate n xs)) = map (\<lambda>x. f (fst x)) (enumerate n xs)"
    by (simp only: map_map comp_def)
  show ?thesis by (rule trans [OF b [symmetric] a])
qed

lemma docs_records_ids: "map rec_id (docs_records u t chunks) = map (docs_id u) [0..<length chunks]"
proof -
  have "map rec_id (docs_records u t chunks) = map (\<lambda>x. docs_id u (fst x)) (enumerate 0 chunks)"
    by (simp add: docs_records_def case_prod_unfold comp_def)
  then show ?thesis by (simp only: map_fst_enum) simp
qed

lemma docs_records_fields:
  "r \<in> set (docs_records u t chunks) \<Longrightarrow> rec_source_type r = py ''docs'' \<and> rec_url r = Some u"
  by (auto simp: docs_records_def)

lemma docs_page_spec:
  assumes "docs_page cfg w u = (rs, ws)"
  shows "(\<exists>n. map rec_id rs = map (docs_id u) [0..<n]) \<and>
         (\<forall>r\<in>set rs. rec_source_type r = py ''docs'' \<and> rec_url r = Some u \<and> good_doc w u) \<and>
         (\<forall>x\<in>set ws. x = DocsFailed u \<and> \<not> short_doc w u)"
proof (cases "extract_doc_page w u")
  case None
  with assms have "rs = []" "ws = [DocsFailed u]" by (auto simp: docs_page_def)
  moreover have "\<not> short_doc w u" using None by (simp add: short_doc_def)
  ultimately show ?thesis by simp
next
  case (Some tt)
  obtain t cont where tt: "tt = (t, cont)" by (cases tt)
  show ?thesis
  proof (cases "cont = [] \<or> length cont < 200")
    case True
    with assms Some tt have "rs = []" "ws = []" by (auto simp: docs_page_def)
    then show ?thesis by simp
  next
    case False
    then have g: "good_doc w u" and ns: "\<not> short_doc w u"
      using Some tt by (auto simp: good_doc_def short_doc_def)
    show ?thesis
    proof (cases "split_into_chunks cont (cfg_target_chars cfg) (cfg_hard_max_chars cfg) (cfg_min_chars cfg)")
      case (Inl e)
      with assms Some tt False have "rs = []" "ws = [DocsFailed u]" by (auto simp: docs_page_def)
      with ns show ?thesis by simp
    next
      case (Inr chunks)
      with assms Some tt False have r: "rs = docs_records u t chunks" and "ws = []"
        by (auto simp: docs_page_def)
      have "\<exists>n. map rec_id rs = map (docs_id u) [0..<n]"
        unfolding r docs_records_ids by blast
      moreover have "\<forall>r\<in>set rs. rec_source_type r = py ''docs'' \<and> rec_url r = Some u \<and> good_doc w u"
        unfolding r using docs_records_fields g by blast
      ultimately show ?thesis using \<open>ws = []\<close> by simp
    qed
  qed
qed

lemma distinct_docs_ids: "distinct (map (docs_id u) [0..<n])"
  by (auto simp: distinct_map inj_on_def dest: docs_id_inj)

lemma docs_loop_spec:
  assumes "distinct us"
  shows "\<exists>nr nw. docs_loop cfg w us (recs, ws) = (recs @ nr, ws @ nw) \<and>
           distinct (map rec_id nr) \<and>
           (\<forall>r\<in>set nr. rec_source_type r = py ''docs'' \<and>
              (\<exists>u\<in>set us. \<exists>k. rec_id r = docs_id u k \<and> rec_url r = Some u \<and> good_doc w u)) \<and>
           (\<forall>x\<in>set nw. \<exists>u. x = DocsFailed u \<and> \<not> short_doc w u)"
  using assms
proof (induction us arbitrary: recs ws)
  case Nil
  have "docs_loop cfg w [] (recs, ws) = (recs @ [], ws @ [])" by simp
  then show ?case by fastforce
next
  case (Cons u us)
  obtain rs wn where p: "docs_page cfg w u = (rs, wn)" by (cases "docs_page cfg w u")
  from docs_page_spec [OF p] obtain n where
    ids: "map rec_id rs = map (docs_id u) [0..<n]"
    and fl: "\<forall>r\<in>set rs. rec_source_type r = py ''docs'' \<and> rec_url r = Some u \<and> good_doc w u"
    and wl: "\<forall>x\<in>set wn. x = DocsFailed u \<and> \<not> short_doc w u" by blast
  from Cons.prems have du: "u \<notin> set us" and d: "distinct us" by auto
  from Cons.IH [OF d, of "recs @ rs" "ws @ wn"] obtain nr nw where
    l: "docs_loop cfg w us (recs @ rs, ws @ wn) = ((recs @ rs) @ nr, (ws @ wn) @ nw)"
    and dn: "distinct (map rec_id nr)"
    and fn: "\<forall>r\<in>set nr. rec_source_type r = py ''docs'' \<and>
              (\<exists>u\<in>set us. \<exists>k. rec_id r = docs_id u k \<and> rec_url r = Some u \<and> good_doc w u)"
    and wn': "\<forall>x\<in>set nw. \<exists>u. x = DocsFailed u \<and> \<not> short_doc w u" by blast
  have e: "docs_loop cfg w (u # us) (recs, ws) = (recs @ (rs @ nr), ws @ (wn @ nw))"
    using p l by simp
  have idrs: "\<forall>r\<in>set rs. \<exists>k. rec_id r = docs_id u k"
  proof
    fix r assume "r \<in> set rs"
    then have "rec_id r \<in> set (map rec_id rs)" by simp
    then show "\<exists>k. rec_id r = docs_id u k" unfolding ids by auto
  qed
  have disj: "set (map rec_id rs) \<inter> set (map rec_id nr) = {}"
  proof (rule ccontr)
    assume "set (map rec_id rs) \<inter> set (map rec_id nr) \<noteq> {}"
    then obtain a b where ab: "a \<in> set rs" "b \<in> set nr" "rec_id a = rec_id b" by auto
    from idrs ab(1) obtain k where "rec_id a = docs_id u k" by blast
    moreover from fn ab(2) obtain u' k' where "u' \<in> set us" "rec_id b = docs_id u' k'" by blast
    ultimately have "u = u'" using ab(3) docs_id_inj by metis
    with \<open>u' \<in> set us\<close> du show False by simp
  qed
  have d1: "distinct (map rec_id (rs @ nr))"
    using dn disj distinct_docs_ids [of u n] by (simp add: ids)
  have f1: "\<forall>r\<in>set (rs @ nr). rec_source_type r = py ''docs'' \<and>
              (\<exists>u'\<in>set (u # us). \<exists>k. rec_id r = docs_id u' k \<and> rec_url r = Some u' \<and> good_doc w u')"
  proof
    fix r assume "r \<in> set (rs @ nr)"
    then consider "r \<in> set rs" | "r \<in> set nr" by auto
    then show "rec_source_type r = py ''docs'' \<and>
              (\<exists>u'\<in>set (u # us). \<exists>k. rec_id r = docs_id u' k \<and> rec_url r = Some u' \<and> good_doc w u')"
    proof cases
      case 1
      with fl idrs show ?thesis by auto
    next
      case 2
      with fn show ?thesis by auto
    qed
  qed
  have w1: "\<forall>x\<in>set (wn @ nw). \<exists>u. x = DocsFailed u \<and> \<not> short_doc w u"
    using wl wn' by auto
  from e d1 f1 w1 show ?case by blast
qed

lemma repo_records_ids:
  "map rec_id (repo_records cfg w name p s cchunks) = map (repo_id name p s) [0..<length cchunks]"
proof -
  have "map rec_id (repo_records cfg w name p s cchunks)
      = map (\<lambda>x. repo_id name p s (fst x)) (enumerate 0 cchunks)"
    by (simp add: repo_records_def case_prod_unfold comp_def)
  then show ?thesis by (simp only: map_fst_enum) simp
qed

lemma repo_records_fields:
  "r \<in> set (repo_records cfg w name p s cchunks) \<Longrightarrow> rec_source_type r = py ''repo''"
  by (auto simp: repo_records_def)

lemma node_records_spec:
  assumes "node_records cfg w name branch sha node = Inr rs"
  shows "rs = [] \<or> (is_blob node \<and>
           (\<exists>s cchunks. sha = Some s \<and> rs = repo_records cfg w name (node_path node) s cchunks))"
proof (cases "rs = []")
  case True
  then show ?thesis by simp
next
  case False
  with assms have b: "is_blob node"
    by (auto simp: node_records_def is_blob_def split: if_splits)
  from assms False obtain text0 where t: "raw_file w name branch (node_path node) = Some text0"
    by (cases "raw_file w name branch (node_path node)")
       (auto simp: node_records_def split: if_splits)
  from assms False t obtain cchunks where
    c: "split_into_chunks (clean_text text0) (cfg_code_target_chars cfg)
          (cfg_hard_max_chars cfg) (cfg_min_chars cfg) = Inr cchunks"
    by (cases "split_into_chunks (clean_text text0) (cfg_code_target_chars cfg)
          (cfg_hard_max_chars cfg) (cfg_min_chars cfg)")
       (auto simp: node_records_def split: if_splits)
  from assms False t c obtain s where "sha = Some s"
    by (cases sha) (auto simp: node_records_def split: if_splits)
  with assms False t c have "rs = repo_records cfg w name (node_path node) s cchunks"
    by (auto simp: node_records_def split: if_splits)
  with b \<open>sha = Some s\<close> show ?thesis by blast
qed

lemma distinct_repo_ids: "distinct (map (repo_id n p s) [0..<m])"
  by (auto simp: distinct_map inj_on_def dest: repo_id_inj_path)

lemma blob_paths_Cons: "blob_paths nodes \<subseteq> blob_paths (node # nodes)"
  by (auto simp: blob_paths_def)

lemma blob_paths_here: "is_blob node \<Longrightarrow> node_path node \<in> blob_paths (node # nodes)"
  by (simp add: blob_paths_def)

lemma blob_paths_distinct_Cons:
  assumes "distinct (map node_path (filter is_blob (node # nodes)))"
  shows "distinct (map node_path (filter is_blob nodes))"
    and "is_blob node \<Longrightarrow> node_path node \<notin> blob_paths nodes"
proof -
  show "distinct (map node_path (filter is_blob nodes))"
    using assms by (cases "is_blob node") simp_all
  show "node_path node \<notin> blob_paths nodes" if "is_blob node"
    using assms that by (simp add: blob_paths_def)
qed

lemma node_loop_spec:
  "\<exists>nr nw. node_loop cfg w name branch sha nodes recs = (recs @ nr, nw) \<and>
     (\<forall>r\<in>set nr. rec_source_type r = py ''repo'' \<and>
        (\<exists>s p k. sha = Some s \<and> p \<in> blob_paths nodes \<and> rec_id r = repo_id name p s k)) \<and>
     (\<forall>x\<in>set nw. x = RepoFailed name) \<and>
     (distinct (map node_path (filter is_blob nodes)) \<longrightarrow> distinct (map rec_id nr))"
proof (induction nodes arbitrary: recs)
  case Nil
  have "node_loop cfg w name branch sha [] recs = (recs @ [], []) \<and>
     (\<forall>r\<in>set []. rec_source_type r = py ''repo'' \<and>
        (\<exists>s p k. sha = Some s \<and> p \<in> blob_paths [] \<and> rec_id r = repo_id name p s k)) \<and>
     (\<forall>x\<in>set []. x = RepoFailed name) \<and>
     (distinct (map node_path (filter is_blob [])) \<longrightarrow> distinct (map rec_id []))"
    by simp
  then show ?case by (intro exI)
next
  case (Cons node nodes)
  show ?case
  proof (cases "node_records cfg w name branch sha node")
    case (Inl e)
    then have "node_loop cfg w name branch sha (node # nodes) recs = (recs @ [], [RepoFailed name]) \<and>
     (\<forall>r\<in>set []. rec_source_type r = py ''repo'' \<and>
        (\<exists>s p k. sha = Some s \<and> p \<in> blob_paths (node # nodes) \<and> rec_id r = repo_id name p s k)) \<and>
     (\<forall>x\<in>set [RepoFailed name]. x = RepoFailed name) \<and>
     (distinct (map node_path (filter is_blob (node # nodes))) \<longrightarrow> distinct (map rec_id []))"
      by simp
    then show ?thesis by (intro exI)
  next
    case (Inr rs)
    from Cons.IH [of "recs @ rs"] obtain nr nw where
      l: "node_loop cfg w name branch sha nodes (recs @ rs) = ((recs @ rs) @ nr, nw)"
      and fn: "\<forall>r\<in>set nr. rec_source_type r = py ''repo'' \<and>
        (\<exists>s p k. sha = Some s \<and> p \<in> blob_paths nodes \<and> rec_id r = repo_id name p s k)"
      and wn: "\<forall>x\<in>set nw. x = RepoFailed name"
      and dn: "distinct (map node_path (filter is_blob nodes)) \<longrightarrow> distinct (map rec_id nr)"
      by blast
    have e: "node_loop cfg w name branch sha (node # nodes) recs = (recs @ (rs @ nr), nw)"
      using Inr l by simp
    note sub = blob_paths_Cons [of nodes node]
    have fn': "\<forall>r\<in>set nr. rec_source_type r = py ''repo'' \<and>
        (\<exists>s p k. sha = Some s \<and> p \<in> blob_paths (node # nodes) \<and> rec_id r = repo_id name p s k)"
    proof
      fix r assume r: "r \<in> set nr"
      with fn have st: "rec_source_type r = py ''repo''" by simp
      from fn r obtain s p k where
        x: "sha = Some s" "p \<in> blob_paths nodes" "rec_id r = repo_id name p s k" by meson
      from x(2) sub have "p \<in> blob_paths (node # nodes)" by (rule subsetD [rotated])
      with x(1,3) have "\<exists>s p k. sha = Some s \<and> p \<in> blob_paths (node # nodes) \<and>
          rec_id r = repo_id name p s k" by (intro exI conjI)
      with st show "rec_source_type r = py ''repo'' \<and>
        (\<exists>s p k. sha = Some s \<and> p \<in> blob_paths (node # nodes) \<and> rec_id r = repo_id name p s k)"
        by (rule conjI)
    qed
    from node_records_spec [OF Inr] consider
        (empty) "rs = []"
      | (blob) s cchunks where "is_blob node" "sha = Some s"
          "rs = repo_records cfg w name (node_path node) s cchunks"
      by blast
    then show ?thesis
    proof cases
      case empty
      have d1: "distinct (map node_path (filter is_blob (node # nodes))) \<longrightarrow>
                distinct (map rec_id (rs @ nr))"
        using dn empty blob_paths_distinct_Cons(1) [of node nodes] by simp
      have f1: "\<forall>r\<in>set (rs @ nr). rec_source_type r = py ''repo'' \<and>
        (\<exists>s p k. sha = Some s \<and> p \<in> blob_paths (node # nodes) \<and> rec_id r = repo_id name p s k)"
        using fn' empty by simp
      from e f1 wn d1 have "node_loop cfg w name branch sha (node # nodes) recs = (recs @ (rs @ nr), nw) \<and>
        (\<forall>r\<in>set (rs @ nr). rec_source_type r = py ''repo'' \<and>
          (\<exists>s p k. sha = Some s \<and> p \<in> blob_paths (node # nodes) \<and> rec_id r = repo_id name p s k)) \<and>
        (\<forall>x\<in>set nw. x = RepoFailed name) \<and>
        (distinct (map node_path (filter is_blob (node # nodes))) \<longrightarrow> distinct (map rec_id (rs @ nr)))"
        by (intro conjI)
      then show ?thesis by (intro exI)
    next
      case blob
      have ids: "map rec_id rs = map (repo_id name (node_path node) s) [0..<length cchunks]"
        unfolding blob(3) by (rule repo_records_ids)
      have frs: "\<forall>r\<in>set rs. rec_source_type r = py ''repo'' \<and>
          (\<exists>k. rec_id r = repo_id name (node_path node) s k)"
      proof
        fix r assume r: "r \<in> set rs"
        then have "rec_id r \<in> set (map rec_id rs)" by simp
        then have "\<exists>k. rec_id r = repo_id name (node_path node) s k" unfolding ids by auto
        moreover have "rec_source_type r = py ''repo''"
          using r unfolding blob(3) by (rule repo_records_fields)
        ultimately show "rec_source_type r = py ''repo'' \<and>
          (\<exists>k. rec_id r = repo_id name (node_path node) s k)" by blast
      qed
      note here = blob_paths_here [OF blob(1), of nodes]
      have f1: "\<forall>r\<in>set (rs @ nr). rec_source_type r = py ''repo'' \<and>
        (\<exists>s p k. sha = Some s \<and> p \<in> blob_paths (node # nodes) \<and> rec_id r = repo_id name p s k)"
      proof
        fix r assume "r \<in> set (rs @ nr)"
        then consider "r \<in> set rs" | "r \<in> set nr" by auto
        then show "rec_source_type r = py ''repo'' \<and>
          (\<exists>s p k. sha = Some s \<and> p \<in> blob_paths (node # nodes) \<and> rec_id r = repo_id name p s k)"
        proof cases
          case 1
          with frs blob(2) here show ?thesis by blast
        next
          case 2
          with fn' show ?thesis by blast
        qed
      qed
      have d1: "distinct (map node_path (filter is_blob (node # nodes))) \<longrightarrow>
                distinct (map rec_id (rs @ nr))"
      proof
        assume dist: "distinct (map node_path (filter is_blob (node # nodes)))"
        note dl = blob_paths_distinct_Cons(1) [OF dist]
        note notin = blob_paths_distinct_Cons(2) [OF dist blob(1)]
        have "set (map rec_id rs) \<inter> set (map rec_id nr) = {}"
        proof (rule ccontr)
          assume "set (map rec_id rs) \<inter> set (map rec_id nr) \<noteq> {}"
          then obtain a b where ab: "a \<in> set rs" "b \<in> set nr" "rec_id a = rec_id b" by auto
          from frs ab(1) obtain k where a: "rec_id a = repo_id name (node_path node) s k" by blast
          from fn ab(2) obtain s' p k' where
            b: "sha = Some s'" "p \<in> blob_paths nodes" "rec_id b = repo_id name p s' k'" by blast
          from b(1) blob(2) have "s' = s" by simp
          with a b(3) ab(3) have "repo_id name (node_path node) s k = repo_id name p s k'" by metis
          from repo_id_inj_path [OF this] have "p = node_path node" by simp
          with b(2) notin show False by simp
        qed
        moreover have "distinct (map rec_id rs)" unfolding ids by (rule distinct_repo_ids)
        moreover have "distinct (map rec_id nr)" using dn dl by blast
        ultimately show "distinct (map rec_id (rs @ nr))" by simp
      qed
      from e f1 wn d1 have "node_loop cfg w name branch sha (node # nodes) recs = (recs @ (rs @ nr), nw) \<and>
        (\<forall>r\<in>set (rs @ nr). rec_source_type r = py ''repo'' \<and>
          (\<exists>s p k. sha = Some s \<and> p \<in> blob_paths (node # nodes) \<and> rec_id r = repo_id name p s k)) \<and>
        (\<forall>x\<in>set nw. x = RepoFailed name) \<and>
        (distinct (map node_path (filter is_blob (node # nodes))) \<longrightarrow> distinct (map rec_id (rs @ nr)))"
        by (intro conjI)
      then show ?thesis by (intro exI)
    qed
  qed
qed

lemma repo_rec_mono: "repo_rec N r \<Longrightarrow> N \<subseteq> M \<Longrightarrow> repo_rec M r"
  unfolding repo_rec_def by blast

lemma distinct_append_ids:
  assumes "distinct (map rec_id a)" "distinct (map rec_id b)"
    and "\<And>x y. x \<in> set a \<Longrightarrow> y \<in> set b \<Longrightarrow> rec_id x \<noteq> rec_id y"
  shows "distinct (map rec_id (a @ b))"
  using assms by auto

lemma repo_ingest_spec:
  "\<exists>nr nw. repo_ingest cfg w name recs = (recs @ nr, nw) \<and>
     (\<forall>r\<in>set nr. repo_rec {name} r) \<and>
     (\<forall>x\<in>set nw. x = RepoFailed name) \<and>
     (tree_paths_distinct w name \<longrightarrow> distinct (map rec_id nr))"
proof -
  have fail: ?thesis if "repo_ingest cfg w name recs = (recs, [RepoFailed name])"
  proof -
    from that have "repo_ingest cfg w name recs = (recs @ [], [RepoFailed name]) \<and>
     (\<forall>r\<in>set []. repo_rec {name} r) \<and>
     (\<forall>x\<in>set [RepoFailed name]. x = RepoFailed name) \<and>
     (tree_paths_distinct w name \<longrightarrow> distinct (map rec_id []))" by simp
    then show ?thesis by (intro exI)
  qed
  show ?thesis
  proof (cases "default_branch_sha w name")
    case None
    then show ?thesis by (intro fail) (simp add: repo_ingest_def)
  next
    case (Some bs)
    obtain branch sha where bs: "bs = (branch, sha)" by (cases bs)
    show ?thesis
    proof (cases "repo_tree w name sha")
      case None
      with Some bs show ?thesis by (intro fail) (simp add: repo_ingest_def)
    next
      case (Some tree)
      from node_loop_spec [of cfg w name branch sha tree recs] obtain nr nw where
        l: "node_loop cfg w name branch sha tree recs = (recs @ nr, nw)"
        and fn: "\<forall>r\<in>set nr. rec_source_type r = py ''repo'' \<and>
          (\<exists>s p k. sha = Some s \<and> p \<in> blob_paths tree \<and> rec_id r = repo_id name p s k)"
        and wn: "\<forall>x\<in>set nw. x = RepoFailed name"
        and dn: "distinct (map node_path (filter is_blob tree)) \<longrightarrow> distinct (map rec_id nr)"
        by meson
      have e: "repo_ingest cfg w name recs = (recs @ nr, nw)"
        using \<open>default_branch_sha w name = Some bs\<close> bs Some l by (simp add: repo_ingest_def)
      have f: "\<forall>r\<in>set nr. repo_rec {name} r"
      proof
        fix r assume "r \<in> set nr"
        with fn have "rec_source_type r = py ''repo''"
          and "\<exists>s p k. sha = Some s \<and> p \<in> blob_paths tree \<and> rec_id r = repo_id name p s k"
          by simp_all
        then show "repo_rec {name} r" unfolding repo_rec_def by blast
      qed
      have d: "tree_paths_distinct w name \<longrightarrow> distinct (map rec_id nr)"
      proof
        assume "tree_paths_distinct w name"
        with \<open>default_branch_sha w name = Some bs\<close> bs Some
        have "distinct (map node_path (filter is_blob tree))"
          unfolding tree_paths_distinct_def by blast
        with dn show "distinct (map rec_id nr)" by simp
      qed
      from e f wn d have "repo_ingest cfg w name recs = (recs @ nr, nw) \<and>
        (\<forall>r\<in>set nr. repo_rec {name} r) \<and>
        (\<forall>x\<in>set nw. x = RepoFailed name) \<and>
        (tree_paths_distinct w name \<longrightarrow> distinct (map rec_id nr))" by (intro conjI)
      then show ?thesis by (intro exI)
    qed
  qed
qed

lemma repos_ok_Cons:
  assumes "repos_ok w (name # names)"
  shows "repos_ok w names" "name \<notin> set names" "COLON \<notin> set name" "tree_paths_distinct w name"
    "\<forall>n\<in>set names. COLON \<notin> set n"
  using assms unfolding repos_ok_def by simp_all

lemma repo_rec_disjoint:
  assumes "repo_rec {name} x" "repo_rec N y" "name \<notin> N" "COLON \<notin> set name"
    "\<forall>n\<in>N. COLON \<notin> set n"
  shows "rec_id x \<noteq> rec_id y"
proof
  assume eq: "rec_id x = rec_id y"
  from assms(1) obtain p s k where x: "rec_id x = repo_id name p s k"
    unfolding repo_rec_def by blast
  from assms(2) obtain n p' s' k' where y: "n \<in> N" "rec_id y = repo_id n p' s' k'"
    unfolding repo_rec_def by blast
  from x y(2) eq have "repo_id name p s k = repo_id n p' s' k'" by metis
  from repo_id_inj_name [OF this assms(4)] assms(5) y(1) have "name = n" by blast
  with y(1) assms(3) show False by simp
qed

lemma repos_loop_spec:
  "\<exists>nr nw. repos_loop cfg w names (recs, ws) = (recs @ nr, ws @ nw) \<and>
     (\<forall>r\<in>set nr. repo_rec (set names) r) \<and>
     (\<forall>x\<in>set nw. \<exists>n. x = RepoFailed n) \<and>
     (repos_ok w names \<longrightarrow> distinct (map rec_id nr))"
proof (induction names arbitrary: recs ws)
  case Nil
  have "repos_loop cfg w [] (recs, ws) = (recs @ [], ws @ []) \<and>
     (\<forall>r\<in>set []. repo_rec (set []) r) \<and>
     (\<forall>x\<in>set []. \<exists>n. x = RepoFailed n) \<and>
     (repos_ok w [] \<longrightarrow> distinct (map rec_id []))" by simp
  then show ?case by (intro exI)
next
  case (Cons name names)
  from repo_ingest_spec [of cfg w name recs] obtain r1 w1 where
    i: "repo_ingest cfg w name recs = (recs @ r1, w1)"
    and f1: "\<forall>r\<in>set r1. repo_rec {name} r"
    and wf1: "\<forall>x\<in>set w1. x = RepoFailed name"
    and d1: "tree_paths_distinct w name \<longrightarrow> distinct (map rec_id r1)" by meson
  from Cons.IH [of "recs @ r1" "ws @ w1"] obtain r2 w2 where
    l: "repos_loop cfg w names (recs @ r1, ws @ w1) = ((recs @ r1) @ r2, (ws @ w1) @ w2)"
    and f2: "\<forall>r\<in>set r2. repo_rec (set names) r"
    and wf2: "\<forall>x\<in>set w2. \<exists>n. x = RepoFailed n"
    and d2: "repos_ok w names \<longrightarrow> distinct (map rec_id r2)" by meson
  have e: "repos_loop cfg w (name # names) (recs, ws) = (recs @ (r1 @ r2), ws @ (w1 @ w2))"
    using i l by simp
  have f: "\<forall>r\<in>set (r1 @ r2). repo_rec (set (name # names)) r"
  proof
    fix r assume "r \<in> set (r1 @ r2)"
    then consider "r \<in> set r1" | "r \<in> set r2" by auto
    then show "repo_rec (set (name # names)) r"
    proof cases
      case 1
      with f1 have "repo_rec {name} r" by simp
      then show ?thesis by (rule repo_rec_mono) simp
    next
      case 2
      with f2 have "repo_rec (set names) r" by simp
      then show ?thesis by (rule repo_rec_mono) auto
    qed
  qed
  have wf: "\<forall>x\<in>set (w1 @ w2). \<exists>n. x = RepoFailed n"
  proof
    fix x assume "x \<in> set (w1 @ w2)"
    then consider "x \<in> set w1" | "x \<in> set w2" by auto
    then show "\<exists>n. x = RepoFailed n"
    proof cases
      case 1
      with wf1 have "x = RepoFailed name" by simp
      then show ?thesis by (rule exI)
    next
      case 2
      with wf2 show ?thesis by simp
    qed
  qed
  have d: "repos_ok w (name # names) \<longrightarrow> distinct (map rec_id (r1 @ r2))"
  proof
    assume ok: "repos_ok w (name # names)"
    note c = repos_ok_Cons [OF ok]
    from d1 c(4) have a: "distinct (map rec_id r1)" by simp
    from d2 c(1) have b: "distinct (map rec_id r2)" by simp
    show "distinct (map rec_id (r1 @ r2))"
    proof (rule distinct_append_ids [OF a b])
      fix x y assume "x \<in> set r1" "y \<in> set r2"
      with f1 f2 have "repo_rec {name} x" "repo_rec (set names) y" by simp_all
      then show "rec_id x \<noteq> rec_id y" using c(2) c(3) c(5) by (rule repo_rec_disjoint)
    qed
  qed
  from e f wf d have "repos_loop cfg w (name # names) (recs, ws) = (recs @ (r1 @ r2), ws @ (w1 @ w2)) \<and>
     (\<forall>r\<in>set (r1 @ r2). repo_rec (set (name # names)) r) \<and>
     (\<forall>x\<in>set (w1 @ w2). \<exists>n. x = RepoFailed n) \<and>
     (repos_ok w (name # names) \<longrightarrow> distinct (map rec_id (r1 @ r2)))" by (intro conjI)
  then show ?case by (intro exI)
qed

lemma release_rec_t_mono: "release_rec_t rn M r \<Longrightarrow> M \<subseteq> M' \<Longrightarrow> release_rec_t rn M' r"
  unfolding release_rec_t_def by blast

lemma release_rec_mono: "release_rec R r \<Longrightarrow> R \<subseteq> R' \<Longrightarrow> release_rec R' r"
  unfolding release_rec_def by blast

lemma release_rec_t_rec: "release_rec_t rn M r \<Longrightarrow> release_rec {rn} r"
  unfolding release_rec_t_def release_rec_def by blast

lemma release_id_inj_title:
  "release_id rn m k = release_id rn m' k' \<Longrightarrow> m = m' \<and> k = k'"
  using chunk_suffix [of m "Suc k" m' "Suc k'"] by (simp add: release_id_def)

lemma release_records_ids:
  "map rec_id (release_records cfg rn m rel chunks) = map (release_id rn m) [0..<length chunks]"
proof -
  have "map rec_id (release_records cfg rn m rel chunks)
      = map (\<lambda>x. release_id rn m (fst x)) (enumerate 0 chunks)"
    by (simp add: release_records_def case_prod_unfold comp_def)
  then show ?thesis by (simp only: map_fst_enum) simp
qed

lemma release_records_fields:
  "r \<in> set (release_records cfg rn m rel chunks) \<Longrightarrow> rec_source_type r = py ''release''"
  by (auto simp: release_records_def)

lemma distinct_release_ids: "distinct (map (release_id rn m) [0..<n])"
  by (auto simp: distinct_map inj_on_def dest: release_id_inj_title)

lemma release_step_spec:
  assumes "release_step cfg rn rel = Inr rs"
  shows "rs = [] \<or> (\<exists>m chunks. release_title rel = Some m \<and>
                      rs = release_records cfg rn m rel chunks)"
proof (cases "release_title rel")
  case None
  with assms show ?thesis by (simp add: release_step_def)
next
  case (Some m)
  with assms obtain chunks where
    "split_into_chunks (release_text m rel) (cfg_target_chars cfg)
       (cfg_hard_max_chars cfg) (cfg_min_chars cfg) = Inr chunks"
    by (cases "split_into_chunks (release_text m rel) (cfg_target_chars cfg)
       (cfg_hard_max_chars cfg) (cfg_min_chars cfg)") (auto simp: release_step_def)
  with assms Some have "rs = release_records cfg rn m rel chunks"
    by (simp add: release_step_def)
  with Some show ?thesis by blast
qed

lemma release_step_recs:
  assumes "release_step cfg rn rel = Inr rs"
  shows "(\<forall>r\<in>set rs. release_rec_t rn (set (page_titles [rel])) r) \<and> distinct (map rec_id rs)"
proof -
  from release_step_spec [OF assms] consider
      "rs = []"
    | m chunks where "release_title rel = Some m" "rs = release_records cfg rn m rel chunks"
    by blast
  then show ?thesis
  proof cases
    case 1
    then show ?thesis by simp
  next
    case 2
    have ids: "map rec_id rs = map (release_id rn m) [0..<length chunks]"
      unfolding 2(2) by (rule release_records_ids)
    have t: "m \<in> set (page_titles [rel])" using 2(1) by (simp add: page_titles_def)
    have "\<forall>r\<in>set rs. release_rec_t rn (set (page_titles [rel])) r"
    proof
      fix r assume r: "r \<in> set rs"
      then have "rec_id r \<in> set (map rec_id rs)" by simp
      then have "\<exists>k. rec_id r = release_id rn m k" unfolding ids by auto
      moreover have "rec_source_type r = py ''release''"
        using r unfolding 2(2) by (rule release_records_fields)
      ultimately show "release_rec_t rn (set (page_titles [rel])) r"
        unfolding release_rec_t_def using t by blast
    qed
    moreover have "distinct (map rec_id rs)" unfolding ids by (rule distinct_release_ids)
    ultimately show ?thesis by (rule conjI)
  qed
qed

lemma page_titles_Cons: "page_titles (rel # rels) = page_titles [rel] @ page_titles rels"
  by (simp add: page_titles_def)

lemma release_rec_t_disjoint:
  assumes "release_rec_t rn M x" "release_rec_t rn M' y" "M \<inter> M' = {}"
  shows "rec_id x \<noteq> rec_id y"
proof
  assume eq: "rec_id x = rec_id y"
  from assms(1) obtain m k where x: "m \<in> M" "rec_id x = release_id rn m k"
    unfolding release_rec_t_def by blast
  from assms(2) obtain m' k' where y: "m' \<in> M'" "rec_id y = release_id rn m' k'"
    unfolding release_rec_t_def by blast
  from x(2) y(2) eq have "release_id rn m k = release_id rn m' k'" by metis
  from release_id_inj_title [OF this] have "m = m'" by simp
  with x(1) y(1) assms(3) show False by blast
qed

lemma page_loop_spec:
  "\<exists>nr e. page_loop cfg rn rels recs = (recs @ nr, e) \<and>
     (\<forall>r\<in>set nr. release_rec_t rn (set (page_titles rels)) r) \<and>
     (distinct (page_titles rels) \<longrightarrow> distinct (map rec_id nr))"
proof (induction rels arbitrary: recs)
  case Nil
  have "page_loop cfg rn [] recs = (recs @ [], None) \<and>
     (\<forall>r\<in>set []. release_rec_t rn (set (page_titles [])) r) \<and>
     (distinct (page_titles []) \<longrightarrow> distinct (map rec_id []))" by simp
  then show ?case by (intro exI)
next
  case (Cons rel rels)
  show ?case
  proof (cases "release_step cfg rn rel")
    case (Inl e)
    then have "page_loop cfg rn (rel # rels) recs = (recs @ [], Some e) \<and>
     (\<forall>r\<in>set []. release_rec_t rn (set (page_titles (rel # rels))) r) \<and>
     (distinct (page_titles (rel # rels)) \<longrightarrow> distinct (map rec_id []))" by simp
    then show ?thesis by (intro exI)
  next
    case (Inr rs)
    from release_step_recs [OF Inr]
    have f1: "\<forall>r\<in>set rs. release_rec_t rn (set (page_titles [rel])) r"
      and d1: "distinct (map rec_id rs)" by simp_all
    from Cons.IH [of "recs @ rs"] obtain nr e where
      l: "page_loop cfg rn rels (recs @ rs) = ((recs @ rs) @ nr, e)"
      and f2: "\<forall>r\<in>set nr. release_rec_t rn (set (page_titles rels)) r"
      and d2: "distinct (page_titles rels) \<longrightarrow> distinct (map rec_id nr)" by meson
    have e: "page_loop cfg rn (rel # rels) recs = (recs @ (rs @ nr), e)"
      using Inr l by simp
    have f: "\<forall>r\<in>set (rs @ nr). release_rec_t rn (set (page_titles (rel # rels))) r"
    proof
      fix r assume "r \<in> set (rs @ nr)"
      then consider "r \<in> set rs" | "r \<in> set nr" by auto
      then show "release_rec_t rn (set (page_titles (rel # rels))) r"
      proof cases
        case 1
        with f1 have "release_rec_t rn (set (page_titles [rel])) r" by simp
        then show ?thesis by (rule release_rec_t_mono) (simp add: page_titles_Cons [of rel rels])
      next
        case 2
        with f2 have "release_rec_t rn (set (page_titles rels)) r" by simp
        then show ?thesis by (rule release_rec_t_mono) (simp add: page_titles_Cons [of rel rels])
      qed
    qed
    have d: "distinct (page_titles (rel # rels)) \<longrightarrow> distinct (map rec_id (rs @ nr))"
    proof
      assume "distinct (page_titles (rel # rels))"
      then have dd: "distinct (page_titles rels)"
        and dj: "set (page_titles [rel]) \<inter> set (page_titles rels) = {}"
        unfolding page_titles_Cons [of rel rels] by simp_all
      from d2 dd have b: "distinct (map rec_id nr)" by simp
      show "distinct (map rec_id (rs @ nr))"
      proof (rule distinct_append_ids [OF d1 b])
        fix x y assume "x \<in> set rs" "y \<in> set nr"
        with f1 f2 have "release_rec_t rn (set (page_titles [rel])) x"
          "release_rec_t rn (set (page_titles rels)) y" by simp_all
        then show "rec_id x \<noteq> rec_id y" using dj by (rule release_rec_t_disjoint)
      qed
    qed
    from e f d have "page_loop cfg rn (rel # rels) recs = (recs @ (rs @ nr), e) \<and>
     (\<forall>r\<in>set (rs @ nr). release_rec_t rn (set (page_titles (rel # rels))) r) \<and>
     (distinct (page_titles (rel # rels)) \<longrightarrow> distinct (map rec_id (rs @ nr)))" by (intro conjI)
    then show ?thesis by (intro exI)
  qed
qed

lemma titles_from_here:
  "releases_page w rn p = Some rels \<Longrightarrow> set (page_titles rels) \<subseteq> titles_from w rn p"
  unfolding titles_from_def by blast

lemma titles_from_Suc: "titles_from w rn (Suc p) \<subseteq> titles_from w rn p"
  unfolding titles_from_def by (auto intro: Suc_leD)

lemma titles_page_disjoint:
  assumes "release_titles_distinct w rn" "releases_page w rn p = Some rels"
  shows "set (page_titles rels) \<inter> titles_from w rn (Suc p) = {}"
proof (rule ccontr)
  assume "set (page_titles rels) \<inter> titles_from w rn (Suc p) \<noteq> {}"
  then obtain m where m: "m \<in> set (page_titles rels)" "m \<in> titles_from w rn (Suc p)" by blast
  from m(2) obtain q rels' where q: "Suc p \<le> q" "releases_page w rn q = Some rels'"
    "m \<in> set (page_titles rels')" unfolding titles_from_def by blast
  from q(1) have "p \<noteq> q" by simp
  with assms q(2) have "set (page_titles rels) \<inter> set (page_titles rels') = {}"
    unfolding release_titles_distinct_def by blast
  with m(1) q(3) show False by blast
qed

lemma releases_loop_spec:
  assumes "releases_loop w cfg rn p recs = Some res"
  shows "\<exists>nr. fst res = recs @ nr \<and>
           (\<forall>r\<in>set nr. release_rec_t rn (titles_from w rn p) r) \<and>
           (\<forall>x\<in>set (snd res). x = ReleasesFailed rn) \<and>
           (release_titles_distinct w rn \<longrightarrow> distinct (map rec_id nr))"
proof (induction rule: releases_loop.raw_induct [OF _ assms])
  case (1 loop w cfg rn p recs res)
  have stop: ?case if "fst res = recs" "\<forall>x\<in>set (snd res). x = ReleasesFailed rn"
  proof -
    from that have "fst res = recs @ [] \<and>
           (\<forall>r\<in>set []. release_rec_t rn (titles_from w rn p) r) \<and>
           (\<forall>x\<in>set (snd res). x = ReleasesFailed rn) \<and>
           (release_titles_distinct w rn \<longrightarrow> distinct (map rec_id []))" by simp
    then show ?thesis by (intro exI)
  qed
  show ?case
  proof (cases "releases_page w rn p")
    case None
    with 1(2) have "res = (recs, [ReleasesFailed rn])" by simp
    then show ?thesis by (intro stop) simp_all
  next
    case (Some rels)
    show ?thesis
    proof (cases "rels = []")
      case True
      with 1(2) Some have "res = (recs, [])" by simp
      then show ?thesis by (intro stop) simp_all
    next
      case False
      from page_loop_spec [of cfg rn rels recs] obtain n1 e where
        pl: "page_loop cfg rn rels recs = (recs @ n1, e)"
        and f1: "\<forall>r\<in>set n1. release_rec_t rn (set (page_titles rels)) r"
        and d1: "distinct (page_titles rels) \<longrightarrow> distinct (map rec_id n1)" by meson
      have f1': "\<forall>r\<in>set n1. release_rec_t rn (titles_from w rn p) r"
      proof
        fix r assume "r \<in> set n1"
        with f1 have "release_rec_t rn (set (page_titles rels)) r" by simp
        then show "release_rec_t rn (titles_from w rn p) r"
          using titles_from_here [OF Some] by (rule release_rec_t_mono)
      qed
      have d1': "release_titles_distinct w rn \<longrightarrow> distinct (map rec_id n1)"
      proof
        assume "release_titles_distinct w rn"
        with Some have "distinct (page_titles rels)"
          unfolding release_titles_distinct_def by blast
        with d1 show "distinct (map rec_id n1)" by simp
      qed
      show ?thesis
      proof (cases e)
        case (Some err)
        with 1(2) \<open>releases_page w rn p = Some rels\<close> False pl
        have r: "res = (recs @ n1, [ReleasesFailed rn])" by simp
        from r f1' d1' have "fst res = recs @ n1 \<and>
           (\<forall>r\<in>set n1. release_rec_t rn (titles_from w rn p) r) \<and>
           (\<forall>x\<in>set (snd res). x = ReleasesFailed rn) \<and>
           (release_titles_distinct w rn \<longrightarrow> distinct (map rec_id n1))" by simp
        then show ?thesis by (intro exI)
      next
        case None
        with 1(2) \<open>releases_page w rn p = Some rels\<close> False pl
        have "loop w cfg rn (Suc p) (recs @ n1) = Some res" by simp
        from 1(1) [OF this] obtain n2 where
          r2: "fst res = (recs @ n1) @ n2"
          and f2: "\<forall>r\<in>set n2. release_rec_t rn (titles_from w rn (Suc p)) r"
          and w2: "\<forall>x\<in>set (snd res). x = ReleasesFailed rn"
          and d2: "release_titles_distinct w rn \<longrightarrow> distinct (map rec_id n2)" by meson
        have f: "\<forall>r\<in>set (n1 @ n2). release_rec_t rn (titles_from w rn p) r"
        proof
          fix r assume "r \<in> set (n1 @ n2)"
          then consider "r \<in> set n1" | "r \<in> set n2" by auto
          then show "release_rec_t rn (titles_from w rn p) r"
          proof cases
            case 1
            with f1' show ?thesis by simp
          next
            case 2
            with f2 have "release_rec_t rn (titles_from w rn (Suc p)) r" by simp
            then show ?thesis using titles_from_Suc by (rule release_rec_t_mono)
          qed
        qed
        have d: "release_titles_distinct w rn \<longrightarrow> distinct (map rec_id (n1 @ n2))"
        proof
          assume td: "release_titles_distinct w rn"
          from d1' td have a: "distinct (map rec_id n1)" by simp
          from d2 td have b: "distinct (map rec_id n2)" by simp
          note dj = titles_page_disjoint [OF td \<open>releases_page w rn p = Some rels\<close>]
          show "distinct (map rec_id (n1 @ n2))"
          proof (rule distinct_append_ids [OF a b])
            fix x y assume "x \<in> set n1" "y \<in> set n2"
            with f1 f2 have "release_rec_t rn (set (page_titles rels)) x"
              "release_rec_t rn (titles_from w rn (Suc p)) y" by simp_all
            then show "rec_id x \<noteq> rec_id y" using dj by (rule release_rec_t_disjoint)
          qed
        qed
        from r2 f w2 d have "fst res = recs @ (n1 @ n2) \<and>
           (\<forall>r\<in>set (n1 @ n2). release_rec_t rn (titles_from w rn p) r) \<and>
           (\<forall>x\<in>set (snd res). x = ReleasesFailed rn) \<and>
           (release_titles_distinct w rn \<longrightarrow> distinct (map rec_id (n1 @ n2)))" by simp
        then show ?thesis by (intro exI)
      qed
    qed
  qed
qed

lemma releases_ok_Cons:
  assumes "releases_ok w (rn # rns)"
  shows "releases_ok w rns" "rn \<notin> set rns" "COLON \<notin> set rn" "release_titles_distinct w rn"
    "\<forall>n\<in>set rns. COLON \<notin> set n"
  using assms unfolding releases_ok_def by simp_all

lemma release_rec_disjoint:
  assumes "release_rec {rn} x" "release_rec R y" "rn \<notin> R" "COLON \<notin> set rn"
    "\<forall>n\<in>R. COLON \<notin> set n"
  shows "rec_id x \<noteq> rec_id y"
proof
  assume eq: "rec_id x = rec_id y"
  from assms(1) obtain m k where x: "rec_id x = release_id rn m k"
    unfolding release_rec_def by blast
  from assms(2) obtain n m' k' where y: "n \<in> R" "rec_id y = release_id n m' k'"
    unfolding release_rec_def by blast
  from x y(2) eq have "release_id rn m k = release_id n m' k'" by metis
  from release_id_inj [OF this assms(4)] assms(5) y(1) have "rn = n" by blast
  with y(1) assms(3) show False by simp
qed

lemma releases_phase_spec:
  assumes "releases_phase w cfg rns (recs, ws) = Some res"
  shows "\<exists>nr nw. res = (recs @ nr, ws @ nw) \<and>
           (\<forall>r\<in>set nr. release_rec (set rns) r) \<and>
           (\<forall>x\<in>set nw. \<exists>n. x = ReleasesFailed n) \<and>
           (releases_ok w rns \<longrightarrow> distinct (map rec_id nr))"
  using assms
proof (induction rns arbitrary: recs ws)
  case Nil
  then have "res = (recs @ [], ws @ []) \<and>
           (\<forall>r\<in>set []. release_rec (set []) r) \<and>
           (\<forall>x\<in>set []. \<exists>n. x = ReleasesFailed n) \<and>
           (releases_ok w [] \<longrightarrow> distinct (map rec_id []))" by simp
  then show ?case by (intro exI)
next
  case (Cons rn rns)
  from Cons.prems obtain res1 where l1: "releases_loop w cfg rn 1 recs = Some res1"
    by (cases "releases_loop w cfg rn 1 recs") auto
  obtain recs1 w1 where res1: "res1 = (recs1, w1)" by (cases res1)
  from releases_loop_spec [OF l1] res1 obtain n1 where
    r1: "recs1 = recs @ n1"
    and f1: "\<forall>r\<in>set n1. release_rec_t rn (titles_from w rn 1) r"
    and wf1: "\<forall>x\<in>set w1. x = ReleasesFailed rn"
    and d1: "release_titles_distinct w rn \<longrightarrow> distinct (map rec_id n1)" by auto
  from Cons.prems l1 res1 r1
  have "releases_phase w cfg rns (recs @ n1, ws @ w1) = Some res" by simp
  from Cons.IH [OF this] obtain n2 w2 where
    r2: "res = ((recs @ n1) @ n2, (ws @ w1) @ w2)"
    and f2: "\<forall>r\<in>set n2. release_rec (set rns) r"
    and wf2: "\<forall>x\<in>set w2. \<exists>n. x = ReleasesFailed n"
    and d2: "releases_ok w rns \<longrightarrow> distinct (map rec_id n2)" by blast
  have e: "res = (recs @ (n1 @ n2), ws @ (w1 @ w2))" using r2 by simp
  have f1': "\<forall>r\<in>set n1. release_rec {rn} r"
  proof
    fix r assume "r \<in> set n1"
    with f1 have "release_rec_t rn (titles_from w rn 1) r" by simp
    then show "release_rec {rn} r" by (rule release_rec_t_rec)
  qed
  have f: "\<forall>r\<in>set (n1 @ n2). release_rec (set (rn # rns)) r"
  proof
    fix r assume "r \<in> set (n1 @ n2)"
    then consider "r \<in> set n1" | "r \<in> set n2" by auto
    then show "release_rec (set (rn # rns)) r"
    proof cases
      case 1
      with f1' have "release_rec {rn} r" by simp
      then show ?thesis by (rule release_rec_mono) simp
    next
      case 2
      with f2 have "release_rec (set rns) r" by simp
      then show ?thesis by (rule release_rec_mono) auto
    qed
  qed
  have wf: "\<forall>x\<in>set (w1 @ w2). \<exists>n. x = ReleasesFailed n"
  proof
    fix x assume "x \<in> set (w1 @ w2)"
    then consider "x \<in> set w1" | "x \<in> set w2" by auto
    then show "\<exists>n. x = ReleasesFailed n"
    proof cases
      case 1
      with wf1 have "x = ReleasesFailed rn" by simp
      then show ?thesis by (rule exI)
    next
      case 2
      with wf2 show ?thesis by simp
    qed
  qed
  have d: "releases_ok w (rn # rns) \<longrightarrow> distinct (map rec_id (n1 @ n2))"
  proof
    assume ok: "releases_ok w (rn # rns)"
    note c = releases_ok_Cons [OF ok]
    from d1 c(4) have a: "distinct (map rec_id n1)" by simp
    from d2 c(1) have b: "distinct (map rec_id n2)" by simp
    show "distinct (map rec_id (n1 @ n2))"
    proof (rule distinct_append_ids [OF a b])
      fix x y assume "x \<in> set n1" "y \<in> set n2"
      with f1' f2 have "release_rec {rn} x" "release_rec (set rns) y" by simp_all
      then show "rec_id x \<noteq> rec_id y" using c(2) c(3) c(5) by (rule release_rec_disjoint)
    qed
  qed
  from e f wf d have "res = (recs @ (n1 @ n2), ws @ (w1 @ w2)) \<and>
           (\<forall>r\<in>set (n1 @ n2). release_rec (set (rn # rns)) r) \<and>
           (\<forall>x\<in>set (w1 @ w2). \<exists>n. x = ReleasesFailed n) \<and>
           (releases_ok w (rn # rns) \<longrightarrow> distinct (map rec_id (n1 @ n2)))" by (intro conjI)
  then show ?case by (intro exI)
qed

lemma discover_distinct: "discover_doc_urls w base seeds = Some urls \<Longrightarrow> distinct urls"
  by (auto simp: discover_doc_urls_def fallback_crawl_def Let_def
      split: option.splits if_splits)

lemma docs_loop_recs:
  assumes "distinct us"
  shows "\<exists>nr nw. docs_loop cfg w us ([], []) = (nr, nw) \<and>
           distinct (map rec_id nr) \<and> (\<forall>r\<in>set nr. docs_rec w r) \<and>
           (\<forall>x\<in>set nw. \<exists>u. x = DocsFailed u \<and> \<not> short_doc w u)"
proof -
  from docs_loop_spec [OF assms, of cfg w "[]" "[]"] obtain nr nw where
    l: "docs_loop cfg w us ([], []) = ([] @ nr, [] @ nw)"
    and d: "distinct (map rec_id nr)"
    and f: "\<forall>r\<in>set nr. rec_source_type r = py ''docs'' \<and>
              (\<exists>u\<in>set us. \<exists>k. rec_id r = docs_id u k \<and> rec_url r = Some u \<and> good_doc w u)"
    and wn: "\<forall>x\<in>set nw. \<exists>u. x = DocsFailed u \<and> \<not> short_doc w u" by meson
  have "\<forall>r\<in>set nr. docs_rec w r"
  proof
    fix r assume "r \<in> set nr"
    with f have "rec_source_type r = py ''docs''"
      and "\<exists>u\<in>set us. \<exists>k. rec_id r = docs_id u k \<and> rec_url r = Some u \<and> good_doc w u"
      by simp_all
    then show "docs_rec w r" unfolding docs_rec_def by blast
  qed
  with l d wn have "docs_loop cfg w us ([], []) = (nr, nw) \<and>
           distinct (map rec_id nr) \<and> (\<forall>r\<in>set nr. docs_rec w r) \<and>
           (\<forall>x\<in>set nw. \<exists>u. x = DocsFailed u \<and> \<not> short_doc w u)" by simp
  then show ?thesis by (intro exI)
qed

lemma build_corpus_parts:
  assumes "build_corpus cfg w = Some (Inr (records, warns))"
  obtains listed d dw r rw l lw where
    "org_repos w (cfg_org cfg) = Inr listed"
    "records = d @ r @ l" "warns = dw @ rw @ lw"
    "distinct (map rec_id d)" "\<forall>x\<in>set d. docs_rec w x"
    "\<forall>x\<in>set dw. \<exists>u. x = DocsFailed u \<and> \<not> short_doc w u"
    "\<forall>x\<in>set r. repo_rec (set (repo_names cfg listed)) x"
    "\<forall>x\<in>set rw. \<exists>n. x = RepoFailed n"
    "repos_ok w (repo_names cfg listed) \<longrightarrow> distinct (map rec_id r)"
    "\<forall>x\<in>set l. release_rec (set (cfg_releases_include_from cfg)) x"
    "\<forall>x\<in>set lw. \<exists>n. x = ReleasesFailed n"
    "releases_ok w (cfg_releases_include_from cfg) \<longrightarrow> distinct (map rec_id l)"
proof -
  let ?disc = "discover_doc_urls w (rstrip_slash (cfg_docs_base cfg)) (cfg_doc_seeds cfg)"
  from assms obtain doc_urls where du: "?disc = Some doc_urls"
    by (cases ?disc) (simp_all add: build_corpus_def)
  from assms du obtain listed where li: "org_repos w (cfg_org cfg) = Inr listed"
    by (cases "org_repos w (cfg_org cfg)") (auto simp: build_corpus_def)
  from docs_loop_recs [OF discover_distinct [OF du], of cfg w] obtain d dw where
    dl: "docs_loop cfg w doc_urls ([], []) = (d, dw)"
    and dd: "distinct (map rec_id d)" and df: "\<forall>x\<in>set d. docs_rec w x"
    and dwf: "\<forall>x\<in>set dw. \<exists>u. x = DocsFailed u \<and> \<not> short_doc w u" by blast
  from repos_loop_spec [of cfg w "repo_names cfg listed" d dw] obtain r rw where
    rl: "repos_loop cfg w (repo_names cfg listed) (d, dw) = (d @ r, dw @ rw)"
    and rf: "\<forall>x\<in>set r. repo_rec (set (repo_names cfg listed)) x"
    and rwf: "\<forall>x\<in>set rw. \<exists>n. x = RepoFailed n"
    and rd: "repos_ok w (repo_names cfg listed) \<longrightarrow> distinct (map rec_id r)" by blast
  from assms du li dl rl
  have "releases_phase w cfg (cfg_releases_include_from cfg) (d @ r, dw @ rw) = Some (records, warns)"
    by (auto simp: build_corpus_def)
  from releases_phase_spec [OF this] obtain l lw where
    e: "(records, warns) = ((d @ r) @ l, (dw @ rw) @ lw)"
    and lf: "\<forall>x\<in>set l. release_rec (set (cfg_releases_include_from cfg)) x"
    and lwf: "\<forall>x\<in>set lw. \<exists>n. x = ReleasesFailed n"
    and ld: "releases_ok w (cfg_releases_include_from cfg) \<longrightarrow> distinct (map rec_id l)" by blast
  from e have re: "records = d @ r @ l" and we: "warns = dw @ rw @ lw" by simp_all
  show thesis by (rule that [OF li re we dd df dwf rf rwf rd lf lwf ld])
qed

lemma kinds_differ:
  "py ''docs'' \<noteq> py ''repo''" "py ''docs'' \<noteq> py ''release''" "py ''repo'' \<noteq> py ''release''"
  by (simp_all add: py_def)

lemma docs_repo_ids: "docs_rec w x \<Longrightarrow> repo_rec N y \<Longrightarrow> rec_id x \<noteq> rec_id y"
  unfolding docs_rec_def repo_rec_def using id_kinds(1) by metis

lemma docs_release_ids: "docs_rec w x \<Longrightarrow> release_rec R y \<Longrightarrow> rec_id x \<noteq> rec_id y"
  unfolding docs_rec_def release_rec_def using id_kinds(2) by metis

lemma repo_release_ids: "repo_rec N x \<Longrightarrow> release_rec R y \<Longrightarrow> rec_id x \<noteq> rec_id y"
  unfolding repo_rec_def release_rec_def using id_kinds(3) by metis

text \<open>
  Claim C3 (record id uniqueness), as amended: in a run that ends, if the retained
  repository names are pairwise distinct and free of colons, no repository tree lists a
  blob path twice, the repositories whose releases are ingested are pairwise distinct and
  free of colons, and no repository has two releases with the same title, then the ids of
  all records of the corpus are pairwise distinct. The documentation URLs need no
  condition: they come from a sorted set.
\<close>

theorem build_corpus_ids_distinct:
  assumes "build_corpus cfg w = Some (Inr (records, warns))"
    and "org_repos w (cfg_org cfg) = Inr listed"
    and "repos_ok w (repo_names cfg listed)"
    and "releases_ok w (cfg_releases_include_from cfg)"
  shows "distinct (map rec_id records)"
proof -
  from assms(1) obtain listed' d dw r rw l lw where p:
    "org_repos w (cfg_org cfg) = Inr listed'"
    "records = d @ r @ l" "warns = dw @ rw @ lw"
    "distinct (map rec_id d)" "\<forall>x\<in>set d. docs_rec w x"
    "\<forall>x\<in>set dw. \<exists>u. x = DocsFailed u \<and> \<not> short_doc w u"
    "\<forall>x\<in>set r. repo_rec (set (repo_names cfg listed')) x"
    "\<forall>x\<in>set rw. \<exists>n. x = RepoFailed n"
    "repos_ok w (repo_names cfg listed') \<longrightarrow> distinct (map rec_id r)"
    "\<forall>x\<in>set l. release_rec (set (cfg_releases_include_from cfg)) x"
    "\<forall>x\<in>set lw. \<exists>n. x = ReleasesFailed n"
    "releases_ok w (cfg_releases_include_from cfg) \<longrightarrow> distinct (map rec_id l)"
    by (rule build_corpus_parts)
  from p(1) assms(2) have "listed' = listed" by simp
  with p(9) assms(3) have dr: "distinct (map rec_id r)" by simp
  from p(12) assms(4) have dl: "distinct (map rec_id l)" by simp
  have drl: "distinct (map rec_id (r @ l))"
  proof (rule distinct_append_ids [OF dr dl])
    fix x y assume "x \<in> set r" "y \<in> set l"
    with p(7) p(10) have "repo_rec (set (repo_names cfg listed')) x"
      "release_rec (set (cfg_releases_include_from cfg)) y" by simp_all
    then show "rec_id x \<noteq> rec_id y" by (rule repo_release_ids)
  qed
  have "distinct (map rec_id (d @ (r @ l)))"
  proof (rule distinct_append_ids [OF p(4) drl])
    fix x y assume x: "x \<in> set d" and "y \<in> set (r @ l)"
    then consider "y \<in> set r" | "y \<in> set l" by auto
    then show "rec_id x \<noteq> rec_id y"
    proof cases
      case 1
      with x p(5) p(7) have "docs_rec w x" "repo_rec (set (repo_names cfg listed')) y" by simp_all
      then show ?thesis by (rule docs_repo_ids)
    next
      case 2
      with x p(5) p(10) have "docs_rec w x"
        "release_rec (set (cfg_releases_include_from cfg)) y" by simp_all
      then show ?thesis by (rule docs_release_ids)
    qed
  qed
  with p(2) show ?thesis by simp
qed

text \<open>
  Claim C10 (short pages are skipped silently): in a run that ends, a documentation page
  whose normalized content has fewer than 200 characters (the empty content included) has
  no record with source type \<^verbatim>\<open>docs\<close> and its URL in the corpus, and no warning is
  printed for it. Hence every \<^verbatim>\<open>docs\<close> record belongs to a page with at least 200
  characters of content.
\<close>

theorem short_page_skipped:
  assumes "build_corpus cfg w = Some (Inr (records, warns))"
    and "extract_doc_page w u = Some (t, cont)"
    and "length cont < 200"
  shows "(\<forall>r\<in>set records. rec_source_type r = py ''docs'' \<longrightarrow> rec_url r \<noteq> Some u) \<and>
         DocsFailed u \<notin> set warns"
proof -
  from assms(1) obtain listed' d dw r rw l lw where p:
    "org_repos w (cfg_org cfg) = Inr listed'"
    "records = d @ r @ l" "warns = dw @ rw @ lw"
    "distinct (map rec_id d)" "\<forall>x\<in>set d. docs_rec w x"
    "\<forall>x\<in>set dw. \<exists>u. x = DocsFailed u \<and> \<not> short_doc w u"
    "\<forall>x\<in>set r. repo_rec (set (repo_names cfg listed')) x"
    "\<forall>x\<in>set rw. \<exists>n. x = RepoFailed n"
    "repos_ok w (repo_names cfg listed') \<longrightarrow> distinct (map rec_id r)"
    "\<forall>x\<in>set l. release_rec (set (cfg_releases_include_from cfg)) x"
    "\<forall>x\<in>set lw. \<exists>n. x = ReleasesFailed n"
    "releases_ok w (cfg_releases_include_from cfg) \<longrightarrow> distinct (map rec_id l)"
    by (rule build_corpus_parts)
  have short: "short_doc w u" using assms(2,3) unfolding short_doc_def by blast
  have recs: "rec_url x \<noteq> Some u" if x: "x \<in> set records" "rec_source_type x = py ''docs''" for x
  proof -
    from x(1) p(2) consider "x \<in> set d" | "x \<in> set r" | "x \<in> set l" by auto
    then show ?thesis
    proof cases
      case 1
      with p(5) have "docs_rec w x" by simp
      then obtain u' where u': "rec_url x = Some u'" "good_doc w u'"
        unfolding docs_rec_def by blast
      from good_not_short [OF u'(2)] short have "u' \<noteq> u" by blast
      with u'(1) show ?thesis by simp
    next
      case 2
      with p(7) have "rec_source_type x = py ''repo''" unfolding repo_rec_def by blast
      with x(2) kinds_differ(1) show ?thesis by simp
    next
      case 3
      with p(10) have "rec_source_type x = py ''release''" unfolding release_rec_def by blast
      with x(2) kinds_differ(2) show ?thesis by simp
    qed
  qed
  have warn: "DocsFailed u \<notin> set warns"
  proof
    assume "DocsFailed u \<in> set warns"
    with p(3) consider "DocsFailed u \<in> set dw" | "DocsFailed u \<in> set rw" | "DocsFailed u \<in> set lw"
      by auto
    then show False
    proof cases
      case 1
      with p(6) obtain u' where "DocsFailed u = DocsFailed u'" "\<not> short_doc w u'" by blast
      with short show False by simp
    next
      case 2
      with p(8) obtain n where "DocsFailed u = RepoFailed n" by blast
      then show False by simp
    next
      case 3
      with p(11) obtain n where "DocsFailed u = ReleasesFailed n" by blast
      then show False by simp
    qed
  qed
  from recs warn show ?thesis by blast
qed

text \<open>The definitions that a run on a concrete world unfolds.\<close>

lemmas world_defs = w0_def w2_def w3_def cfg0_def cfg3_def join_abs_path_def uri_origin_def COLON_def

lemmas discover_defs = discover_doc_urls_def sitemap_phase_def fallback_crawl_def rstrip_slash_def
  SITEMAP_CANDIDATES_def DOC_SECTION_HINTS_def sitemap_loop.simps bfs_loop.simps endswith_def
  is_docs_url_def startswith_def enqueue_links_def SLASH_def py_def

lemmas build_defs = build_corpus_def corpus_ids_def repo_names_def repo_ingest_def node_records_def
  max_bytes_def repo_records_def repo_id_def release_id_def docs_id_def docs_page_def
  extract_doc_page_def docs_records_def release_step_def release_title_def truthy_def
  release_text_def release_records_def releases_loop.simps enumerate_eq_zip

lemmas text_defs = clean_text_def split_into_chunks_def strip_def is_space_def flush_buf_def
  brutal_split_def py_range0_def py_slice_def slice_bound_def NL_def CR_def is_blank_def SP_def TAB_def

lemma w2_discover: "discover_doc_urls w2 (py ''b'') [] = Some []"
  by (simp add: world_defs discover_defs)

lemma w2_ids: "corpus_ids cfg0 w2 = Some (Inr
    [py ''repo::a::README.md::01234567::chunk-1'', py ''repo::a::README.md::01234567::chunk-2'',
     py ''repo::b::README.md::01234567::chunk-1'', py ''repo::b::README.md::01234567::chunk-2''])"
  by (simp add: world_defs discover_defs build_defs text_defs str_nat.simps [of "Suc 0"]
      str_nat.simps [of "Suc (Suc 0)"] upt_rec)

lemma w3_ids: "corpus_ids cfg3 w3 = Some (Inr [py ''release::r::v1::chunk-1'', py ''release::r::v1::chunk-1''])"
  by (simp add: world_defs discover_defs build_defs text_defs str_nat.simps [of "Suc 0"]
      releases_loop.simps [of _ _ _ "Suc 0"] releases_loop.simps [of _ _ _ "Suc (Suc 0)"])

lemma blank_is_space: "is_blank c \<Longrightarrow> is_space c"
  unfolding is_blank_def is_space_def SP_def TAB_def by auto

lemma NL_is_space: "is_space NL"
  by (simp add: is_space_def NL_def)

lemma blank_ok_plain: "\<forall>c\<in>set s. \<not> is_space c \<Longrightarrow> blank_ok s"
proof (induction s)
  case Nil
  then show ?case by simp
next
  case (Cons c s)
  then have "\<not> is_blank c" using blank_is_space by auto
  with Cons show ?case by simp
qed

lemma nl_ok_plain: "\<forall>c\<in>set s. \<not> is_space c \<Longrightarrow> nl_ok s"
proof (induction s)
  case Nil
  then show ?case by simp
next
  case (Cons c s)
  then have "c \<noteq> NL" using NL_is_space by auto
  with Cons show ?case by simp
qed

lemma clean_text_plain:
  assumes "\<forall>c\<in>set s. \<not> is_space c"
  shows "clean_text s = s"
proof -
  have "is_space CR" by (simp add: is_space_def CR_def)
  with assms have "CR \<notin> set s" by blast
  then have 1: "sub_crlf s = s" by (rule sub_crlf_id)
  have 2: "collapse_blanks s = s" using blank_ok_plain [OF assms] by (rule collapse_blanks_id)
  have 3: "collapse_newlines s = s" using nl_ok_plain [OF assms] by (rule collapse_newlines_id)
  have "s = [] \<or> (\<not> is_space (hd s) \<and> \<not> is_space (last s))"
    using assms by (cases s) auto
  then have 4: "strip s = s" by (rule strip_fix)
  show ?thesis by (simp add: clean_text_def 1 2 3 4)
qed

lemma clean_200: "clean_text (replicate 200 97) = replicate 200 97"
  by (rule clean_text_plain) (simp add: is_space_def)

lemma clean_tiny: "clean_text [116, 105, 110, 121] = [116, 105, 110, 121]"
  by (rule clean_text_plain) (simp add: is_space_def)

lemma w4_ids: "corpus_ids cfg4 w4 = Some (Inr [py ''docs::b/sdks::chunk-1''])"
  by (simp add: world_defs w1_def w4_def cfg4_def discover_defs build_corpus_def corpus_ids_def
      repo_names_def docs_id_def docs_page_def extract_doc_page_def docs_records_def clean_200 clean_tiny
      split_into_chunks_def strip_def is_space_def enumerate_eq_zip
      str_nat.simps [of "Suc 0"] insert_commute)

lemma corpus_ids_SomeInr:
  assumes "corpus_ids cfg w = Some (Inr ids)"
  obtains records warns where "build_corpus cfg w = Some (Inr (records, warns))"
    "map rec_id records = ids"
proof -
  from assms obtain x where x: "build_corpus cfg w = Some x"
    "map_sum id (map rec_id \<circ> fst) x = Inr ids"
    unfolding corpus_ids_def by auto
  from x(2) obtain res where "x = Inr res" "map rec_id (fst res) = ids" by (cases x) auto
  with x(1) have "build_corpus cfg w = Some (Inr (fst res, snd res))" by simp
  then show thesis using \<open>map rec_id (fst res) = ids\<close> by (rule that)
qed

text \<open>
  The instance of the specification: two repositories, each with a file \<^verbatim>\<open>README.md\<close>
  split into 2 chunks, give four pairwise distinct ids.
\<close>

theorem build_corpus_ids_distinct_witness:
  "org_repos w2 (cfg_org cfg0) = Inr [py ''a'', py ''b''] \<and>
   repos_ok w2 (repo_names cfg0 [py ''a'', py ''b'']) \<and>
   releases_ok w2 (cfg_releases_include_from cfg0) \<and>
   corpus_ids cfg0 w2 = Some (Inr
     [py ''repo::a::README.md::01234567::chunk-1'', py ''repo::a::README.md::01234567::chunk-2'',
      py ''repo::b::README.md::01234567::chunk-1'', py ''repo::b::README.md::01234567::chunk-2'']) \<and>
   distinct
     [py ''repo::a::README.md::01234567::chunk-1'', py ''repo::a::README.md::01234567::chunk-2'',
      py ''repo::b::README.md::01234567::chunk-1'', py ''repo::b::README.md::01234567::chunk-2'']"
proof -
  have h2: "org_repos w2 (cfg_org cfg0) = Inr [py ''a'', py ''b'']"
    by (simp add: world_defs)
  have h3: "repos_ok w2 (repo_names cfg0 [py ''a'', py ''b''])"
    by (simp add: repos_ok_def repo_names_def tree_paths_distinct_def is_blob_def COLON_def
        world_defs py_def)
  have h4: "releases_ok w2 (cfg_releases_include_from cfg0)"
    by (simp add: releases_ok_def cfg0_def)
  from w2_ids obtain records warns where
    b: "build_corpus cfg0 w2 = Some (Inr (records, warns))"
    and ids: "map rec_id records =
     [py ''repo::a::README.md::01234567::chunk-1'', py ''repo::a::README.md::01234567::chunk-2'',
      py ''repo::b::README.md::01234567::chunk-1'', py ''repo::b::README.md::01234567::chunk-2'']"
    by (rule corpus_ids_SomeInr)
  from build_corpus_ids_distinct [OF b h2 h3 h4] have "distinct (map rec_id records)" .
  then have "distinct
     [py ''repo::a::README.md::01234567::chunk-1'', py ''repo::a::README.md::01234567::chunk-2'',
      py ''repo::b::README.md::01234567::chunk-1'', py ''repo::b::README.md::01234567::chunk-2'']"
    unfolding ids .
  with h2 h3 h4 w2_ids show ?thesis by (intro conjI)
qed

text \<open>
  Two releases of one repository with the same name give two records with the same id.
\<close>

theorem build_corpus_duplicate_ids_counterexample:
  "corpus_ids cfg3 w3
     = Some (Inr [py ''release::r::v1::chunk-1'', py ''release::r::v1::chunk-1'']) \<and>
   \<not> distinct [py ''release::r::v1::chunk-1'', py ''release::r::v1::chunk-1'']"
proof -
  have "corpus_ids cfg3 w3
     = Some (Inr [py ''release::r::v1::chunk-1'', py ''release::r::v1::chunk-1''])"
    by (simp add: world_defs discover_defs build_defs text_defs str_nat.simps [of "Suc 0"]
      releases_loop.simps [of _ _ _ "Suc 0"] releases_loop.simps [of _ _ _ "Suc (Suc 0)"])
  then show ?thesis by simp
qed

theorem short_page_skipped_witness:
  "extract_doc_page w4 (py ''b/spec'') = Some (None, py ''tiny'') \<and>
   length (py ''tiny'') < 200 \<and>
   corpus_ids cfg4 w4 = Some (Inr [py ''docs::b/sdks::chunk-1'']) \<and>
   (\<exists>records warns. build_corpus cfg4 w4 = Some (Inr (records, warns)) \<and>
      DocsFailed (py ''b/spec'') \<notin> set warns \<and>
      \<not> (\<exists>r\<in>set records. rec_source_type r = py ''docs'' \<and> rec_url r = Some (py ''b/spec'')))"
proof -
  have e: "extract_doc_page w4 (py ''b/spec'') = Some (None, py ''tiny'')"
    by (simp add: extract_doc_page_def w4_def w1_def w0_def py_def clean_tiny)
  have s: "length (py ''tiny'') < 200" by (simp add: py_def)
  from w4_ids obtain records warns where
    b: "build_corpus cfg4 w4 = Some (Inr (records, warns))"
    by (rule corpus_ids_SomeInr)
  from short_page_skipped [OF b e s]
  have "DocsFailed (py ''b/spec'') \<notin> set warns \<and>
      \<not> (\<exists>r\<in>set records. rec_source_type r = py ''docs'' \<and> rec_url r = Some (py ''b/spec''))"
    by blast
  with b have "\<exists>records warns. build_corpus cfg4 w4 = Some (Inr (records, warns)) \<and>
      DocsFailed (py ''b/spec'') \<notin> set warns \<and>
      \<not> (\<exists>r\<in>set records. rec_source_type r = py ''docs'' \<and> rec_url r = Some (py ''b/spec''))"
    by blast
  with e s w4_ids show ?thesis by (intro conjI)
qed

end
